theory Spec2Isabelle
  imports Complex_Main
begin

section \<open>Scalars\<close>

text \<open>
  The class template \<open>Poly<T>\<close> is instantiated with floating-point types (\<open>double\<close>,
  \<open>long double\<close>, \<open>std::complex\<close> of these).  The definitions of the polynomial
  operations below are polymorphic in the scalar type and use only its operations
  (\<open>0\<close>, \<open>1\<close>, \<open>+\<close>, \<open>-\<close>, \<open>*\<close>, \<open>/\<close>, \<open>abs\<close>, \<open><\<close>), never its laws.  They
  can therefore be read at a type whose arithmetic is exact, such as \<open>real\<close>, and at the
  type \<open>double\<close> of this section, a model of IEEE 754 binary64: every operation returns
  the exact result rounded to the nearest representable number, ties to the even
  significand, with gradual underflow, overflow to an infinity, and NaN.  A product and
  the sum that consumes it are rounded one after the other (no fused multiply-add).
  Zeros carry no sign, so \<open>x / 0\<close> has the sign of \<open>x\<close>.
\<close>

datatype double = Finite real | PlusInf | MinusInf | NaN

text \<open>Rounding to the nearest integer, ties to the even one.\<close>

definition round_even :: "real \<Rightarrow> int" where
  "round_even x =
     (let f = \<lfloor>x\<rfloor>; d = x - of_int f
      in if d < 1 / 2 then f else if 1 / 2 < d then f + 1 else if even f then f else f + 1)"

text \<open>
  A binary64 number is an integer of magnitude below \<open>2^53\<close> times a power of two between
  \<open>2^-1074\<close> and \<open>2^971\<close>.  \<open>find_up\<close> counts the doublings that bring a magnitude up to
  \<open>2^52\<close>, at most \<open>1074\<close> (below that the numbers are subnormal); \<open>find_down\<close> counts the
  halvings that bring it below \<open>2^53\<close>, at most \<open>971\<close> (above that it overflows).
\<close>

primrec find_up :: "nat \<Rightarrow> real \<Rightarrow> nat" where
  "find_up 0 a = 0"
| "find_up (Suc n) a = (if a < 2 ^ 52 then Suc (find_up n (2 * a)) else 0)"

primrec find_down :: "nat \<Rightarrow> real \<Rightarrow> nat" where
  "find_down 0 a = 0"
| "find_down (Suc n) a = (if 2 ^ 53 \<le> a then Suc (find_down n (a / 2)) else 0)"

definition rnd64 :: "real \<Rightarrow> double" where
  "rnd64 x =
     (let a = \<bar>x\<bar>
      in if a < 2 ^ 52
         then (let s = find_up 1074 a in Finite (of_int (round_even (x * 2 ^ s)) / 2 ^ s))
         else (let s = find_down 971 a; y = of_int (round_even (x / 2 ^ s)) * 2 ^ s
               in if 2 ^ 1024 \<le> \<bar>y\<bar> then (if 0 < x then PlusInf else MinusInf) else Finite y))"

instantiation double :: "{zero, one, plus, minus, uminus, times, inverse, abs, ord}"
begin

definition zero_double_def: "0 = Finite 0"

definition one_double_def: "1 = Finite 1"

fun uminus_double :: "double \<Rightarrow> double" where
  "uminus_double (Finite x) = Finite (- x)"
| "uminus_double PlusInf = MinusInf"
| "uminus_double MinusInf = PlusInf"
| "uminus_double NaN = NaN"

fun plus_double :: "double \<Rightarrow> double \<Rightarrow> double" where
  "plus_double (Finite x) (Finite y) = rnd64 (x + y)"
| "plus_double NaN _ = NaN"
| "plus_double _ NaN = NaN"
| "plus_double PlusInf MinusInf = NaN"
| "plus_double MinusInf PlusInf = NaN"
| "plus_double PlusInf _ = PlusInf"
| "plus_double MinusInf _ = MinusInf"
| "plus_double _ PlusInf = PlusInf"
| "plus_double _ MinusInf = MinusInf"

definition minus_double_def: "x - (y :: double) = x + (- y)"

fun times_double :: "double \<Rightarrow> double \<Rightarrow> double" where
  "times_double (Finite x) (Finite y) = rnd64 (x * y)"
| "times_double NaN _ = NaN"
| "times_double _ NaN = NaN"
| "times_double (Finite x) PlusInf = (if x = 0 then NaN else if 0 < x then PlusInf else MinusInf)"
| "times_double (Finite x) MinusInf = (if x = 0 then NaN else if 0 < x then MinusInf else PlusInf)"
| "times_double PlusInf (Finite y) = (if y = 0 then NaN else if 0 < y then PlusInf else MinusInf)"
| "times_double MinusInf (Finite y) = (if y = 0 then NaN else if 0 < y then MinusInf else PlusInf)"
| "times_double PlusInf PlusInf = PlusInf"
| "times_double PlusInf MinusInf = MinusInf"
| "times_double MinusInf PlusInf = MinusInf"
| "times_double MinusInf MinusInf = PlusInf"

fun divide_double :: "double \<Rightarrow> double \<Rightarrow> double" where
  "divide_double (Finite x) (Finite y) =
     (if y = 0 then (if x = 0 then NaN else if 0 < x then PlusInf else MinusInf)
      else rnd64 (x / y))"
| "divide_double NaN _ = NaN"
| "divide_double _ NaN = NaN"
| "divide_double (Finite x) _ = Finite 0"
| "divide_double PlusInf (Finite y) = (if 0 \<le> y then PlusInf else MinusInf)"
| "divide_double MinusInf (Finite y) = (if 0 \<le> y then MinusInf else PlusInf)"
| "divide_double _ _ = NaN"

definition inverse_double_def: "inverse (x :: double) = divide (Finite 1) x"

fun abs_double :: "double \<Rightarrow> double" where
  "abs_double (Finite x) = Finite \<bar>x\<bar>"
| "abs_double PlusInf = PlusInf"
| "abs_double MinusInf = PlusInf"
| "abs_double NaN = NaN"

fun less_double :: "double \<Rightarrow> double \<Rightarrow> bool" where
  "less_double (Finite x) (Finite y) = (x < y)"
| "less_double NaN _ = False"
| "less_double _ NaN = False"
| "less_double MinusInf MinusInf = False"
| "less_double MinusInf _ = True"
| "less_double _ MinusInf = False"
| "less_double PlusInf _ = False"
| "less_double _ PlusInf = True"

fun less_eq_double :: "double \<Rightarrow> double \<Rightarrow> bool" where
  "less_eq_double (Finite x) (Finite y) = (x \<le> y)"
| "less_eq_double NaN _ = False"
| "less_eq_double _ NaN = False"
| "less_eq_double MinusInf _ = True"
| "less_eq_double _ PlusInf = True"
| "less_eq_double _ _ = False"

instance ..

end

text \<open>
  A decimal literal of the source denotes the nearest \<open>double\<close>, and so does the
  conversion of an \<open>int\<close>.
\<close>

definition lit :: "real \<Rightarrow> double" where
  "lit x = rnd64 x"

definition double_of_int :: "int \<Rightarrow> double" where
  "double_of_int n = rnd64 (of_int n)"

text \<open>
  \<open>std::complex<double>\<close>: a pair of a real and an imaginary part.  Sum, difference
  and negation act on the parts; product and quotient are the textbook formulas, each
  operation on the parts rounded.  (The run-time library first scales the divisor by a
  power of two, which changes nothing short of overflow and underflow.  It also
  post-processes a product or quotient both of whose parts come out as NaN and may return
  infinite parts instead; that is not modelled.)
\<close>

datatype cdouble = Cx double double

instantiation cdouble :: "{zero, one, plus, minus, uminus, times, inverse}"
begin

definition zero_cdouble_def: "0 = Cx 0 0"

definition one_cdouble_def: "1 = Cx 1 0"

fun uminus_cdouble :: "cdouble \<Rightarrow> cdouble" where
  "uminus_cdouble (Cx a b) = Cx (- a) (- b)"

fun plus_cdouble :: "cdouble \<Rightarrow> cdouble \<Rightarrow> cdouble" where
  "plus_cdouble (Cx a b) (Cx c d) = Cx (a + c) (b + d)"

fun minus_cdouble :: "cdouble \<Rightarrow> cdouble \<Rightarrow> cdouble" where
  "minus_cdouble (Cx a b) (Cx c d) = Cx (a - c) (b - d)"

fun times_cdouble :: "cdouble \<Rightarrow> cdouble \<Rightarrow> cdouble" where
  "times_cdouble (Cx a b) (Cx c d) = Cx (a * c - b * d) (a * d + b * c)"

fun divide_cdouble :: "cdouble \<Rightarrow> cdouble \<Rightarrow> cdouble" where
  "divide_cdouble (Cx a b) (Cx c d) =
     Cx (divide (a * c + b * d) (c * c + d * d)) (divide (b * c - a * d) (c * c + d * d))"

definition inverse_cdouble_def: "inverse (z :: cdouble) = divide (Cx 1 0) z"

instance ..

end

text \<open>\<open>std::complex<T>(t)\<close> for a real \<open>t\<close>.\<close>

definition cplx :: "double \<Rightarrow> cdouble" where
  "cplx t = Cx t 0"

text \<open>
  \<open>std::abs\<close> and \<open>std::sqrt\<close> of a complex number, as the exact functions rounded:
  the modulus of a number with an infinite part is infinite, otherwise a NaN part makes
  it NaN; the square root of a number with a part that is not finite is reported as NaN.
\<close>

fun cabs :: "cdouble \<Rightarrow> double" where
  "cabs (Cx (Finite a) (Finite b)) = rnd64 (sqrt (a * a + b * b))"
| "cabs (Cx PlusInf _) = PlusInf"
| "cabs (Cx MinusInf _) = PlusInf"
| "cabs (Cx _ PlusInf) = PlusInf"
| "cabs (Cx _ MinusInf) = PlusInf"
| "cabs (Cx _ _) = NaN"

fun csqrt_d :: "cdouble \<Rightarrow> cdouble" where
  "csqrt_d (Cx (Finite a) (Finite b)) =
     Cx (rnd64 (Re (csqrt (Complex a b)))) (rnd64 (Im (csqrt (Complex a b))))"
| "csqrt_d (Cx _ _) = Cx NaN NaN"

text \<open>
  The conversion \<open>T(n)\<close> of a count \<open>n\<close> to a scalar, as the sum of \<open>n\<close> ones: it is
  \<open>n\<close> itself in every semiring with one, and in \<open>double\<close> for every \<open>n\<close> up to \<open>2^53\<close>.
\<close>

primrec of_size_t :: "nat \<Rightarrow> 'a::{zero,one,plus}" where
  "of_size_t 0 = 0"
| "of_size_t (Suc n) = of_size_t n + 1"

section \<open>Dense polynomials (include/Poly.h)\<close>

text \<open>
  The class template \<open>Poly<T>\<close> stores its coefficients highest power first in a
  \<open>std::vector<T>\<close> together with a cached degree of type \<open>size_t\<close>.  A \<open>for\<close> loop over
  an index range is a \<open>foldl\<close> over that range, and a write through the non-const
  \<open>operator[]\<close> is a list update.  \<open>operator[]\<close> does not check its index; the reads and
  writes of the functions of this section stay inside the vector whenever the object
  satisfies the class invariant \<open>poly_inv\<close> below.  Loop counters are natural numbers;
  the source counts with \<open>int\<close> or \<open>size_t\<close>, which agree with them as long as the
  degree is below \<open>2^31\<close> (vectors of more than \<open>2^31\<close> coefficients are not
  considered).  The constructors, \<open>operator*\<close> and \<open>resize\<close> write out the wrap-around
  of \<open>size_t\<close> and the conversion to \<open>int\<close> where they compute a degree or a size from
  their arguments.  The comparison \<open>==\<close> of scalars is equality; the two differ only when
  both operands are NaN, which no comparison below meets.
\<close>

datatype error =
  DegreeError    \<comment> \<open>the \<open>std::logic_error\<close> thrown by polynomial division\<close>
| OutOfBounds    \<comment> \<open>an access outside a container (undefined behaviour in C++)\<close>

record 'a Poly =
  coef :: "'a list"    \<comment> \<open>the member \<open>coef_\<close>\<close>
  deg :: nat           \<comment> \<open>the member \<open>deg_\<close>\<close>

definition poly_inv :: "'a Poly \<Rightarrow> bool" where
  "poly_inv p = (coef p \<noteq> [] \<and> deg p = length (coef p) - 1)"

text \<open>\<open>coef_.size() - 1\<close> in \<open>size_t\<close>: only the empty vector wraps around.\<close>

definition size_minus_one :: "nat \<Rightarrow> nat" where
  "size_minus_one n = (if n = 0 then 2 ^ 64 - 1 else n - 1)"

subsection \<open>Constructors\<close>

definition Poly_default :: "'a::zero Poly" where
  "Poly_default = \<lparr>coef = [0], deg = 0\<rparr>"

definition Poly_copy :: "'a Poly \<Rightarrow> 'a Poly" where
  "Poly_copy p = \<lparr>coef = coef p, deg = deg p\<rparr>"

definition Poly_of_vector :: "'a list \<Rightarrow> 'a Poly" where
  "Poly_of_vector cs = \<lparr>coef = cs, deg = size_minus_one (length cs)\<rparr>"

definition Poly_of_value :: "'a \<Rightarrow> 'a Poly" where
  "Poly_of_value v = \<lparr>coef = replicate 1 v, deg = 0\<rparr>"

text \<open>
  \<open>Poly(size_t deg, T value)\<close> allocates \<open>deg + 1\<close> coefficients, the sum taken in
  \<open>size_t\<close>: for \<open>deg = 2^64 - 1\<close> it is \<open>0\<close>.
\<close>

definition Poly_of_deg_value :: "nat \<Rightarrow> 'a \<Rightarrow> 'a Poly" where
  "Poly_of_deg_value n v = \<lparr>coef = replicate ((n + 1) mod 2 ^ 64) v, deg = n\<rparr>"

definition Poly_of_init_list :: "'a list \<Rightarrow> 'a Poly" where
  "Poly_of_init_list coefs = \<lparr>coef = coefs, deg = size_minus_one (length coefs)\<rparr>"

subsection \<open>Member functions\<close>

text \<open>\<open>normalize\<close> returns the value it hands back together with the updated object.\<close>

definition normalize :: "'a::{zero,inverse} Poly \<Rightarrow> 'a \<times> 'a Poly" where
  "normalize p =
     (let a0 = coef p ! 0
      in (a0, if a0 \<noteq> 0 then p\<lparr>coef := map (\<lambda>c. c / a0) (coef p)\<rparr> else p))"

definition Clear :: "'a::zero Poly \<Rightarrow> 'a Poly" where
  "Clear p = p\<lparr>coef := [] @ [0], deg := 0\<rparr>"

definition antider :: "'a::{zero,one,plus,inverse} Poly \<Rightarrow> 'a Poly" where
  "antider p =
     (if deg p = 0 then Poly_of_vector [coef p ! 0, 0]
      else Poly_of_vector
        (foldl (\<lambda>tmp i. tmp[i := coef p ! i / of_size_t (deg p - i + 1)])
           (replicate (deg p + 2) 0) [0..<Suc (deg p)]))"

definition der :: "'a::{zero,one,plus,times} Poly \<Rightarrow> 'a Poly" where
  "der p =
     (if deg p = 0 then Poly_of_init_list [0]
      else if deg p = 1 then Poly_of_init_list [coef p ! 0]
      else Poly_of_vector
        (foldl (\<lambda>tmp i. tmp[i := coef p ! i * of_size_t (deg p - i)])
           (replicate (deg p) 0) [0..<deg p]))"

text \<open>Horner evaluation \<open>At\<close> and the power-sum evaluation \<open>eval\<close>.\<close>

definition At :: "'a::{plus,times} Poly \<Rightarrow> 'a \<Rightarrow> 'a" where
  "At p x = foldl (\<lambda>b d. coef p ! d + b * x) (coef p ! 0) [1..<Suc (deg p)]"

definition eval :: "'a::{zero,one,plus,times} Poly \<Rightarrow> 'a \<Rightarrow> 'a" where
  "eval p x =
     (if deg p = 0 then coef p ! 0
      else fst (foldl (\<lambda>(sum, t) c. (sum + t * c, t * x)) (0, 1) (rev (coef p))))"

definition integral :: "'a::{zero,one,plus,minus,times,inverse} Poly \<Rightarrow> 'a \<Rightarrow> 'a \<Rightarrow> 'a" where
  "integral p from to = (let a = antider p in At a to - At a from)"

text \<open>
  \<open>update\<close> and \<open>update_real\<close> scan for the first coefficient that is not (nearly)
  zero; the scan reads \<open>coef_[i]\<close> before it tests \<open>i < deg_\<close>.  The tolerance \<open>1e-8\<close>
  of \<open>update_real\<close> is written as the quotient of one by the count \<open>10^8\<close>: in a field
  that is \<open>10^-8\<close>, and in \<open>double\<close> it is the number the literal denotes.
\<close>

function update_scan :: "('a \<Rightarrow> bool) \<Rightarrow> 'a list \<Rightarrow> nat \<Rightarrow> nat \<Rightarrow> nat" where
  "update_scan small cs n i =
     (if small (cs ! i) \<and> i < n then update_scan small cs n (i + 1) else i)"
  by pat_completeness auto
termination
  by (relation "measure (\<lambda>(small, cs, n, i). n - i)") auto

declare update_scan.simps [simp del]

definition trim :: "('a::zero \<Rightarrow> bool) \<Rightarrow> 'a Poly \<Rightarrow> 'a Poly" where
  "trim small p =
     (let i = update_scan small (coef p) (deg p) 0
      in if i = deg p + 1 then p\<lparr>deg := 0, coef := [0]\<rparr>
         else p\<lparr>coef := drop i (coef p), deg := deg p - i\<rparr>)"

definition update :: "'a::zero Poly \<Rightarrow> 'a Poly" where
  "update p = trim (\<lambda>c. c = 0) p"

definition update_real :: "'a::{zero,one,plus,inverse,abs,ord} Poly \<Rightarrow> 'a Poly" where
  "update_real p = trim (\<lambda>c. \<bar>c\<bar> < 1 / of_size_t (10 ^ 8)) p"

text \<open>
  \<open>resize(int deg)\<close> keeps the last \<open>deg + 1\<close> coefficients.  \<open>int temp = deg_\<close>
  converts the stored degree to a 32-bit \<open>int\<close>.  The iterator
  \<open>coef_.begin() + (temp - deg)\<close> must lie between \<open>begin()\<close> and \<open>end()\<close>; otherwise
  the behaviour is undefined.  The new degree is the \<open>int\<close> converted to \<open>size_t\<close>.
\<close>

definition int_of_size_t :: "nat \<Rightarrow> int" where
  "int_of_size_t n = (let m = int n mod 2 ^ 32 in if m < 2 ^ 31 then m else m - 2 ^ 32)"

definition resize :: "'a Poly \<Rightarrow> int \<Rightarrow> error + 'a Poly" where
  "resize p d =
     (let temp = int_of_size_t (deg p); off = temp - d
      in if 0 \<le> off \<and> off < 2 ^ 31 \<and> off \<le> int (length (coef p))
         then Inr (p\<lparr>deg := nat (d mod 2 ^ 64), coef := drop (nat off) (coef p)\<rparr>)
         else Inl OutOfBounds)"

subsection \<open>Arithmetic operators\<close>

definition times :: "'a::{zero,plus,times} Poly \<Rightarrow> 'a Poly \<Rightarrow> 'a Poly" where
  "times p1 p2 =
     (let lhs_deg = deg p1; rhs_deg = deg p2;
          res = Poly_of_deg_value ((rhs_deg + lhs_deg) mod 2 ^ 64) 0
      in res\<lparr>coef :=
           foldl (\<lambda>r i. foldl (\<lambda>r j. r[i + j := r ! (i + j) + coef p1 ! i * coef p2 ! j])
                           r [0..<Suc rhs_deg])
             (coef res) [0..<Suc lhs_deg]\<rparr>)"

definition times_scalar :: "'a::{zero,times} Poly \<Rightarrow> 'a \<Rightarrow> 'a Poly" where
  "times_scalar p v =
     (if v = 0 then Poly_of_init_list [0]
      else let n = deg p; ans = Poly_of_deg_value n 0
           in ans\<lparr>coef := foldl (\<lambda>a i. a[i := coef p ! i * v]) (coef ans) [0..<Suc n]\<rparr>)"

definition scalar_times :: "'a::{zero,times} \<Rightarrow> 'a Poly \<Rightarrow> 'a Poly" where
  "scalar_times v p = times_scalar p v"

definition divide_scalar :: "'a::{zero,inverse} Poly \<Rightarrow> 'a \<Rightarrow> 'a Poly" where
  "divide_scalar p v =
     (let n = deg p; ans = Poly_of_deg_value n 0
      in ans\<lparr>coef := foldl (\<lambda>a i. a[i := coef p ! i / v]) (coef ans) [0..<Suc n]\<rparr>)"

definition uminus_poly :: "'a::uminus Poly \<Rightarrow> 'a Poly" where
  "uminus_poly p =
     (let n = deg p; temp = Poly_copy p
      in temp\<lparr>coef := foldl (\<lambda>t i. t[i := - (coef p ! i)]) (coef temp) [0..<Suc n]\<rparr>)"

text \<open>
  \<open>plus\<close> adds \<open>rhs\<close> into a copy of \<open>lhs\<close>, aligned at the constant term.  Its only
  caller \<open>operator+\<close> passes the operand of larger degree first, so \<open>deg_lhs - i\<close>
  does not wrap.
\<close>

definition plus :: "'a::plus Poly \<Rightarrow> 'a Poly \<Rightarrow> 'a Poly" where
  "plus lhs rhs =
     (let deg_lhs = deg lhs; deg_rhs = deg rhs; temp = Poly_copy lhs
      in temp\<lparr>coef :=
           foldl (\<lambda>t i. t[deg_lhs - i := t ! (deg_lhs - i) + coef rhs ! (deg_rhs - i)])
             (coef temp) [0..<Suc deg_rhs]\<rparr>)"

definition add :: "'a::plus Poly \<Rightarrow> 'a Poly \<Rightarrow> 'a Poly" where
  "add p1 p2 = (if deg p1 \<ge> deg p2 then plus p1 p2 else plus p2 p1)"

definition sub :: "'a::{plus,uminus} Poly \<Rightarrow> 'a Poly \<Rightarrow> 'a Poly" where
  "sub lhs rhs = add lhs (uminus_poly rhs)"

text \<open>\<open>operator==\<close> compares the coefficient vectors only.\<close>

definition poly_eq :: "'a Poly \<Rightarrow> 'a Poly \<Rightarrow> bool" where
  "poly_eq p1 p2 = (coef p1 = coef p2)"

subsection \<open>Division with remainder\<close>

text \<open>
  One round of the outer loop of \<open>operator/(const Poly&, const Poly&)\<close>: the leading
  entry \<open>a_i\<close> of the running remainder is cleared, \<open>a_i / rhs[0]\<close> is pushed onto the
  quotient, and the inner loop subtracts \<open>rhs[j] * a_i / rhs[0]\<close> from \<open>rem[i + j]\<close>.
  The state is the pair of the remainder's and the quotient's coefficient vectors.
\<close>

definition div_step ::
    "'a::{zero,minus,times,inverse} list \<Rightarrow> nat \<Rightarrow> 'a list \<times> 'a list \<Rightarrow> nat \<Rightarrow> 'a list \<times> 'a list" where
  "div_step rhs deg2 st i =
     (let rem = fst st; res = snd st;
          a_i = rem ! i;
          rem = rem[i := 0];
          res = res @ [a_i / rhs ! 0]
      in (foldl (\<lambda>r j. r[i + j := r ! (i + j) - rhs ! j * a_i / rhs ! 0]) rem [1..<Suc deg2],
          res))"

text \<open>
  The division throws when the dividend has the smaller degree; otherwise it returns the
  quotient built from the pushed coefficients and the remainder after \<open>update()\<close>.
\<close>

definition divide ::
    "'a::{zero,minus,times,inverse} Poly \<Rightarrow> 'a Poly \<Rightarrow> error + 'a Poly \<times> 'a Poly" where
  "divide lhs rhs =
     (let deg1 = deg lhs; deg2 = deg rhs
      in if deg1 < deg2 then Inl DegreeError
         else let rem = Poly_copy lhs;
                  st = foldl (div_step (coef rhs) deg2) (coef rem, []) [0..<Suc (deg1 - deg2)]
              in Inr (Poly_of_vector (snd st), update (rem\<lparr>coef := fst st\<rparr>)))"

subsection \<open>Assignment operators\<close>

text \<open>
  The member operators return the updated object; \<open>operator/=\<close> by a polynomial keeps the
  quotient and passes the exception of the division on.
\<close>

definition assign :: "'a Poly \<Rightarrow> 'a Poly \<Rightarrow> 'a Poly" where
  "assign p rhs = p\<lparr>coef := coef rhs, deg := deg rhs\<rparr>"

definition times_assign :: "'a::{zero,plus,times} Poly \<Rightarrow> 'a Poly \<Rightarrow> 'a Poly" where
  "times_assign p rhs = assign p (times p rhs)"

definition times_assign_scalar :: "'a::times Poly \<Rightarrow> 'a \<Rightarrow> 'a Poly" where
  "times_assign_scalar p rhs =
     p\<lparr>coef := foldl (\<lambda>c i. c[i := c ! i * rhs]) (coef p) [0..<Suc (deg p)]\<rparr>"

definition plus_assign_scalar :: "'a::plus Poly \<Rightarrow> 'a \<Rightarrow> 'a Poly" where
  "plus_assign_scalar p rhs = p\<lparr>coef := (coef p)[deg p := coef p ! deg p + rhs]\<rparr>"

definition plus_assign :: "'a::plus Poly \<Rightarrow> 'a Poly \<Rightarrow> 'a Poly" where
  "plus_assign p rhs = (let temp = add p rhs in assign p temp)"

definition minus_assign :: "'a::{plus,uminus} Poly \<Rightarrow> 'a Poly \<Rightarrow> 'a Poly" where
  "minus_assign p rhs = assign p (sub p rhs)"

definition divide_assign_scalar :: "'a::inverse Poly \<Rightarrow> 'a \<Rightarrow> 'a Poly" where
  "divide_assign_scalar p v =
     p\<lparr>coef := foldl (\<lambda>c i. c[i := c ! i / v]) (coef p) [0..<Suc (deg p)]\<rparr>"

definition divide_assign ::
    "'a::{zero,minus,times,inverse} Poly \<Rightarrow> 'a Poly \<Rightarrow> error + 'a Poly" where
  "divide_assign p poly =
     (case divide p poly of Inl e \<Rightarrow> Inl e | Inr qr \<Rightarrow> Inr (assign p (fst qr)))"

section \<open>Root finding (include/Poly.h)\<close>

text \<open>
  \<open>solve\<close> returns a vector of pairs (multiplicity, root).  The scalar type \<open>T\<close> is
  \<open>double\<close> here and \<open>std::complex<T>\<close> is \<open>cdouble\<close>.  The real functions
  \<open>std::sqrt\<close>, \<open>std::acos\<close>, \<open>std::cos\<close> and \<open>std::pow\<close> of the closed-form solvers
  are parameters (a record \<open>cmath\<close>): they decide the values of the roots only.  An
  integer literal in an expression of type \<open>T\<close> is converted to \<open>T\<close>.
\<close>

type_synonym roots = "(int \<times> cdouble) list"

record cmath =
  m_sqrt :: "double \<Rightarrow> double"
  m_acos :: "double \<Rightarrow> double"
  m_cos :: "double \<Rightarrow> double"
  m_pow :: "double \<Rightarrow> double \<Rightarrow> double"

definition EPS :: double where
  "EPS = lit (1 / 10 ^ 15)"

definition M_PI :: double where
  "M_PI = lit (314159265358979323846 / 10 ^ 20)"

definition solve_quadratic :: "cmath \<Rightarrow> double Poly \<Rightarrow> roots" where
  "solve_quadratic cm poly =
     (let a = coef poly ! 0; b = coef poly ! 1; c = coef poly ! 2;
          D = b * b - Finite 4 * a * c
      in if \<bar>D\<bar> < EPS then [(2, cplx (- b / Finite 2 / a))]
         else if D > Finite 0
           then [(1, cplx ((- b + m_sqrt cm D) / Finite 2 / a)),
                 (1, cplx ((- b - m_sqrt cm D) / Finite 2 / a))]
           else [(1, Cx (- b / Finite 2 / a) (m_sqrt cm (- D) / Finite 2 / a)),
                 (1, Cx (- b / Finite 2 / a) (- m_sqrt cm (- D) / Finite 2 / a))])"

definition solve_cubic :: "cmath \<Rightarrow> double Poly \<Rightarrow> error + roots" where
  "solve_cubic cm poly =
     (let a = coef poly ! 1 / coef poly ! 0;
          b = coef poly ! 2 / coef poly ! 0;
          c = coef poly ! 3 / coef poly ! 0;
          q = a * a - Finite 3 * b;
          r = Finite 2 * a * a * a - Finite 9 * a * b + Finite 27 * c;
          Q = q / Finite 9;
          R = r / Finite 54;
          Q3 = Q * Q * Q;
          R2 = R * R;
          CR2 = Finite 729 * r * r;
          CQ3 = Finite 2916 * q * q * q
      in if \<bar>R\<bar> < lit (1 / 10 ^ 12) \<and> \<bar>Q\<bar> < lit (1 / 10 ^ 12)
           then Inr [(3, cplx (- a / Finite 3))]
         else if \<bar>CR2 - CQ3\<bar> < lit (1 / 10 ^ 12)
           then (let sqrtQ = m_sqrt cm Q
                 in if R > Finite 0
                    then Inr [(1, cplx (Finite (- 2) * sqrtQ - a / Finite 3)),
                              (2, cplx (sqrtQ - a / Finite 3))]
                    else Inr [(2, cplx (- sqrtQ - a / Finite 3)),
                              (1, cplx (Finite 2 * sqrtQ - a / Finite 3))])
         else if R2 < Q3
           then (let sgnR = (if R \<ge> Finite 0 then Finite 1 else Finite (- 1));
                     ratio = sgnR * m_sqrt cm (R2 / Q3);
                     theta = m_acos cm ratio;
                     nrm = Finite (- 2) * m_sqrt cm Q;
                     root1 = nrm * m_cos cm (theta / Finite 3) - a / Finite 3;
                     root2 = nrm * m_cos cm ((theta + Finite 2 * M_PI) / Finite 3) - a / Finite 3;
                     root3 = nrm * m_cos cm ((theta - Finite 2 * M_PI) / Finite 3) - a / Finite 3
                 in Inr [(1, cplx root1), (1, cplx root2), (1, cplx root3)])
         else (let sgnR = (if R \<ge> Finite 0 then Finite 1 else Finite (- 1));
                   A = - sgnR * m_pow cm (\<bar>R\<bar> + m_sqrt cm (R2 - Q3)) (Finite 1 / Finite 3);
                   B = Q / A;
                   root = A + B - a / Finite 3
               in case divide poly (Poly_of_init_list [Finite 1, - root]) of
                    Inl e \<Rightarrow> Inl e
                  | Inr qr \<Rightarrow> Inr (solve_quadratic cm (fst qr) @ [(1, cplx root)])))"

text \<open>
  The companion matrix is filled entry by entry; its eigenvalues come from the Eigen
  library, which is a parameter here: \<open>eigenvalues n m\<close> stands for
  \<open>m.eigenvalues()\<close> of the \<open>n\<close> by \<open>n\<close> matrix with entries \<open>m i j\<close>.
\<close>

definition solve_with_eigenvalues ::
    "(nat \<Rightarrow> (nat \<Rightarrow> nat \<Rightarrow> double) \<Rightarrow> cdouble list) \<Rightarrow> double Poly \<Rightarrow> roots" where
  "solve_with_eigenvalues eigenvalues poly0 =
     (let poly = (if coef poly0 ! 0 \<noteq> Finite 1 then snd (normalize poly0) else poly0);
          n = deg poly;
          m = (\<lambda>i j. 0);
          m = foldl (\<lambda>m i. m(i - 1 := (m (i - 1))(n - 1 := - (coef poly ! (n - i + 1)))))
                m [1..<Suc n];
          m = foldl (\<lambda>m i. m(i + 1 := (m (i + 1))(i := Finite 1))) m [0..<n - 1];
          roots = eigenvalues n m
      in map (\<lambda>i. (1, if cabs (roots ! i) < EPS then 0 else roots ! i)) [0..<length roots])"

definition upper_bound :: "cdouble Poly \<Rightarrow> double" where
  "upper_bound poly =
     Finite 1 + foldl (\<lambda>ub i. if cabs (coef poly ! i / coef poly ! 0) > ub
                               then cabs (coef poly ! i / coef poly ! 0) else ub)
                  (cabs (coef poly ! 1 / coef poly ! 0)) [2..<Suc (deg poly)]"

definition lower_bound :: "cdouble Poly \<Rightarrow> double" where
  "lower_bound poly = Finite 1 / upper_bound poly"

text \<open>
  The scan \<open>while (std::abs(poly[deg-k]) < 1e-16) ++k\<close> of \<open>solve_laguerre\<close> counts the
  trailing coefficients that are nearly zero.  \<open>deg - k\<close> is an \<open>int\<close>; once it is
  negative, its conversion to \<open>size_t\<close> indexes far outside the vector.
\<close>

function laguerre_scan :: "double list \<Rightarrow> int \<Rightarrow> int \<Rightarrow> error + int" where
  "laguerre_scan cs dg k =
     (if dg - k < 0 \<or> int (length cs) \<le> dg - k then Inl OutOfBounds
      else if \<bar>cs ! nat (dg - k)\<bar> < lit (1 / 10 ^ 16) then laguerre_scan cs dg (k + 1)
      else Inr k)"
  by pat_completeness auto
termination
  by (relation "measure (\<lambda>(cs, dg, k). nat (dg - k + 1))") auto

declare laguerre_scan.simps [simp del]

text \<open>
  The inner loop \<open>for (k = 0; k < 1000; ++k)\<close>: it leaves through one of its two
  \<open>break\<close>s or when the counter reaches the cap.  The result is the state after the
  loop, the counter \<open>k\<close> and the iterate \<open>x\<close>.
\<close>

function laguerre_iter ::
    "cdouble Poly \<Rightarrow> cdouble Poly \<Rightarrow> cdouble Poly \<Rightarrow> int \<Rightarrow> nat \<Rightarrow> cdouble \<Rightarrow> nat \<times> cdouble" where
  "laguerre_iter p p1 p11 dg k x =
     (if k < 1000 then
        (if cabs (eval p x) < lit (1 / 10 ^ 12) then (k, x)
         else let G = eval p1 x / eval p x;
                  H = G * G - eval p11 x / eval p x;
                  d1 = G + csqrt_d (cplx (double_of_int (dg - 1))
                                      * (cplx (double_of_int dg) * H - G * G));
                  d2 = G - csqrt_d (cplx (double_of_int (dg - 1))
                                      * (cplx (double_of_int dg) * H - G * G));
                  a = cplx (double_of_int dg) / (if cabs d1 > cabs d2 then d1 else d2)
              in if cabs a < lit (1 / 10 ^ 12) then (k, x)
                 else laguerre_iter p p1 p11 dg (k + 1) (x - a))
      else (k, x))"
  by pat_completeness auto
termination
  by (relation "measure (\<lambda>(p, p1, p11, dg, k, x). 1000 - k)") auto

declare laguerre_iter.simps [simp del]

text \<open>
  The outer loop \<open>while (d < deg)\<close>: each round takes the iterate the inner loop stopped
  at, whatever made it stop, deflates \<open>p\<close> by \<open>x - root\<close> and records the root with
  multiplicity \<open>m = 1\<close>.  \<open>deg\<close> keeps the value it had before the loop.
\<close>

function laguerre_outer :: "int \<Rightarrow> int \<Rightarrow> cdouble Poly \<Rightarrow> roots \<Rightarrow> error + roots" where
  "laguerre_outer dg d p res =
     (if d < dg then
        (let m = 1;
             x0 = cplx (lower_bound p);
             p1 = der p;
             p11 = der p1;
             x = snd (laguerre_iter p p1 p11 dg 0 x0);
             X = (Poly_of_init_list [1, 0])\<lparr>coef := [1, 0][1 := - x]\<rparr>
         in case divide_assign p X of
              Inl e \<Rightarrow> Inl e
            | Inr p' \<Rightarrow> laguerre_outer dg (d + 1) p' (res @ [(m, x)]))
      else Inr res)"
  by pat_completeness auto
termination
  by (relation "measure (\<lambda>(dg, d, p, res). nat (dg - d))") auto

declare laguerre_outer.simps [simp del]

definition solve_laguerre :: "double Poly \<Rightarrow> error + roots" where
  "solve_laguerre poly =
     (let dg = int_of_size_t (deg poly)
      in case laguerre_scan (coef poly) dg 0 of
           Inl e \<Rightarrow> Inl e
         | Inr k \<Rightarrow>
             (let res = (if k \<noteq> 0 then [(k, 0)] else []);
                  p = Poly_of_deg_value (nat (dg - k)) 0;
                  dg = int_of_size_t (deg p);
                  p = p\<lparr>coef := foldl (\<lambda>c i. c[i := cplx (coef poly ! i)])
                                   (coef p) [0..<Suc (nat dg)]\<rparr>
              in laguerre_outer dg 0 p res))"

definition solve_numerical ::
    "(nat \<Rightarrow> (nat \<Rightarrow> nat \<Rightarrow> double) \<Rightarrow> cdouble list) \<Rightarrow> double Poly \<Rightarrow> int \<Rightarrow> error + roots" where
  "solve_numerical eigenvalues poly type =
     (if type = 1 then Inr (solve_with_eigenvalues eigenvalues poly) else solve_laguerre poly)"

definition solve ::
    "cmath \<Rightarrow> (nat \<Rightarrow> (nat \<Rightarrow> nat \<Rightarrow> double) \<Rightarrow> cdouble list) \<Rightarrow> double Poly \<Rightarrow> int
       \<Rightarrow> error + roots" where
  "solve cm eigenvalues p type =
     (if deg p = 1 then Inr [(1, cplx (- (coef p ! 1) / coef p ! 0))]
      else if deg p = 2 then Inr (solve_quadratic cm p)
      else if deg p = 3 then solve_cubic cm p
      else if deg p \<ge> 4 then solve_numerical eigenvalues p type
      else Inr [(1, 0)])"

section \<open>NURBS curves\<close>

text \<open>
  The struct \<open>NURBS<T>\<close> with \<open>T\<close> the reals.  Its members \<open>p\<close> and \<open>dim\<close> are the
  fields \<open>nurbs_p\<close> and \<open>nurbs_dim\<close>.  A \<open>Point<T>\<close> (include/Point.h) is a tuple indexed
  by the dimension, with \<open>Point<T>(dim)\<close> the tuple of \<open>dim\<close> zeros, and \<open>Rational<T>\<close> is
  the pair of a point of numerator polynomials and the denominator polynomial.
\<close>

type_synonym Point = "real list"

type_synonym Rational = "real Poly list \<times> real Poly"

record NURBS =
  nurbs_p :: int
  nurbs_dim :: int
  N_segments :: int
  knots :: "real list"
  weights :: "real list"
  cv :: "Point list"
  domain :: "int \<times> int"
  ks :: "int list"
  coefs :: "Rational list"

text \<open>
  The sampling functions index several vectors by values computed at run time.  Each such
  access is written as a checked read: outside the vector the behaviour of the C++ is
  undefined, which the model reports as \<open>OutOfBounds\<close>.
\<close>

definition elem_at :: "'a list \<Rightarrow> int \<Rightarrow> error + 'a" where
  "elem_at xs i = (if 0 \<le> i \<and> i < int (length xs) then Inr (xs ! nat i) else Inl OutOfBounds)"

fun fold_err :: "('s \<Rightarrow> 'i \<Rightarrow> error + 's) \<Rightarrow> 's \<Rightarrow> 'i list \<Rightarrow> error + 's" where
  "fold_err f s [] = Inr s"
| "fold_err f s (x # xs) = (case f s x of Inl e \<Rightarrow> Inl e | Inr s' \<Rightarrow> fold_err f s' xs)"

text \<open>
  Modelled from the spec: \<open>linspace\<close> (include/tools.h) yields \<open>N\<close> parameter values
  evenly spaced from the first to the last argument.
\<close>

definition linspace :: "real \<Rightarrow> real \<Rightarrow> int \<Rightarrow> real list" where
  "linspace a b N = map (\<lambda>i. a + (b - a) * real i / real (nat N - 1)) [0..<nat N]"

text \<open>
  The loop over the dimensions in the body of \<open>get_points\<close>: it stores
  \<open>coefs[j].first[d].At(t) / coefs[j].second.At(t)\<close> in \<open>points[i][d]\<close>.
\<close>

definition set_point :: "NURBS \<Rightarrow> int \<Rightarrow> real \<Rightarrow> int \<Rightarrow> Point list \<Rightarrow> error + Point list" where
  "set_point c j t i points =
     fold_err
       (\<lambda>pts d.
          case elem_at (coefs c) j of Inl e \<Rightarrow> Inl e | Inr fr \<Rightarrow>
          case elem_at (fst fr) d of Inl e \<Rightarrow> Inl e | Inr num \<Rightarrow>
          case elem_at pts i of Inl e \<Rightarrow> Inl e | Inr pt \<Rightarrow>
            if 0 \<le> d \<and> d < int (length pt)
            then Inr (pts[nat i := pt[nat d := At num t / At (snd fr) t]])
            else Inl OutOfBounds)
       points (map int [0..<nat (nurbs_dim c)])"

text \<open>
  The \<open>while\<close> loop of \<open>get_points\<close> for segment \<open>j\<close>.  Its condition reads
  \<open>knots[ks[j+1]]\<close> and then tests \<open>i < N\<close>; its body fills \<open>points[i]\<close>, increments
  \<open>i\<close> and reads \<open>ts[i]\<close> at the incremented index.
\<close>

function get_points_while ::
    "NURBS \<Rightarrow> real list \<Rightarrow> int \<Rightarrow> int \<Rightarrow> Point list \<times> real \<times> int
       \<Rightarrow> error + Point list \<times> real \<times> int" where
  "get_points_while c ts N j (points, t, i) =
     (case elem_at (ks c) (j + 1) of Inl e \<Rightarrow> Inl e | Inr k1 \<Rightarrow>
      case elem_at (knots c) k1 of Inl e \<Rightarrow> Inl e | Inr bound \<Rightarrow>
        if t \<le> bound \<and> i < N then
          (case set_point c j t i points of
             Inl e \<Rightarrow> Inl e
           | Inr points' \<Rightarrow>
               (case elem_at ts (i + 1) of
                  Inl e \<Rightarrow> Inl e
                | Inr t' \<Rightarrow> get_points_while c ts N j (points', t', i + 1)))
        else Inr (points, t, i))"
  by pat_completeness auto
termination
  by (relation "measure (\<lambda>(c, ts, N, j, points, t, i). nat (N - i))") auto

declare get_points_while.simps [simp del]

definition get_points :: "NURBS \<Rightarrow> int \<Rightarrow> error + Point list" where
  "get_points c N =
     (let points = replicate (nat N) (replicate (nat (nurbs_dim c)) 0)
      in case elem_at (knots c) (fst (domain c)) of Inl e \<Rightarrow> Inl e | Inr a \<Rightarrow>
         case elem_at (knots c) (snd (domain c)) of Inl e \<Rightarrow> Inl e | Inr b \<Rightarrow>
           (let ts = linspace a b N; t = a; i = 0
            in case fold_err (\<lambda>st j. get_points_while c ts N j st) (points, t, i)
                      (map int [0..<nat (N_segments c)]) of
                 Inl e \<Rightarrow> Inl e
               | Inr st \<Rightarrow> Inr (fst st)))"

text \<open>
  \<open>get_dy_dx_points\<close> has the same loop; each segment first copies \<open>coefs[j].first[0]\<close>,
  \<open>coefs[j].first[1]\<close> and \<open>coefs[j].second\<close>.
\<close>

function get_dy_dx_while ::
    "NURBS \<Rightarrow> real list \<Rightarrow> int \<Rightarrow> int \<Rightarrow> real Poly \<Rightarrow> real Poly \<Rightarrow> real Poly
       \<Rightarrow> real list \<times> real \<times> int \<Rightarrow> error + real list \<times> real \<times> int" where
  "get_dy_dx_while c ts N j p_x p_y den (points, t, i) =
     (case elem_at (ks c) (j + 1) of Inl e \<Rightarrow> Inl e | Inr k1 \<Rightarrow>
      case elem_at (knots c) k1 of Inl e \<Rightarrow> Inl e | Inr bound \<Rightarrow>
        if t \<le> bound \<and> i < N then
          (if 0 \<le> i \<and> i < int (length points)
           then (let points' = points[nat i :=
                        (At (der p_y) t * At den t - At p_y t * At (der den) t) /
                        (At (der p_x) t * At den t - At p_x t * At (der den) t)]
                 in case elem_at ts (i + 1) of
                      Inl e \<Rightarrow> Inl e
                    | Inr t' \<Rightarrow> get_dy_dx_while c ts N j p_x p_y den (points', t', i + 1))
           else Inl OutOfBounds)
        else Inr (points, t, i))"
  by pat_completeness auto
termination
  by (relation "measure (\<lambda>(c, ts, N, j, p_x, p_y, den, points, t, i). nat (N - i))") auto

declare get_dy_dx_while.simps [simp del]

definition get_dy_dx_points :: "NURBS \<Rightarrow> int \<Rightarrow> error + real list" where
  "get_dy_dx_points c N =
     (let points = replicate (nat N) 0
      in case elem_at (knots c) (fst (domain c)) of Inl e \<Rightarrow> Inl e | Inr a \<Rightarrow>
         case elem_at (knots c) (snd (domain c)) of Inl e \<Rightarrow> Inl e | Inr b \<Rightarrow>
           (let ts = linspace a b N; t = a; i = 0
            in case fold_err
                      (\<lambda>st j.
                         case elem_at (coefs c) j of Inl e \<Rightarrow> Inl e | Inr fr \<Rightarrow>
                         case elem_at (fst fr) 0 of Inl e \<Rightarrow> Inl e | Inr p_x \<Rightarrow>
                         case elem_at (fst fr) 1 of Inl e \<Rightarrow> Inl e | Inr p_y \<Rightarrow>
                           get_dy_dx_while c ts N j p_x p_y (snd fr) st)
                      (points, t, i) (map int [0..<nat (N_segments c)]) of
                 Inl e \<Rightarrow> Inl e
               | Inr st \<Rightarrow> Inr (fst st)))"

section \<open>Properties of the rounding\<close>

lemma round_even_of_int: "round_even (of_int k) = k"
  by (simp add: round_even_def)

lemma round_even_cases: "round_even x = \<lfloor>x\<rfloor> \<or> (round_even x = \<lfloor>x\<rfloor> + 1 \<and> 1 / 2 \<le> x - of_int \<lfloor>x\<rfloor>)"
  by (auto simp add: round_even_def Let_def)

lemma round_even_bound:
  assumes "\<bar>x\<bar> \<le> of_int N"
  shows "\<bar>round_even x\<bar> \<le> N"
proof -
  have lo: "- N \<le> \<lfloor>x\<rfloor>" using assms by (auto simp add: le_floor_iff abs_le_iff)
  have hi: "\<lfloor>x\<rfloor> \<le> N" using assms by (auto simp add: floor_le_iff abs_le_iff)
  have hi': "\<lfloor>x\<rfloor> + 1 \<le> N" if "1 / 2 \<le> x - of_int \<lfloor>x\<rfloor>"
  proof -
    have "of_int \<lfloor>x\<rfloor> < x" using that by linarith
    then have "of_int \<lfloor>x\<rfloor> < (of_int N :: real)" using assms by linarith
    then have "\<lfloor>x\<rfloor> < N" by simp
    then show ?thesis by simp
  qed
  show ?thesis using round_even_cases[of x] lo hi hi' by auto
qed

lemma find_up_eq:
  "0 < a \<Longrightarrow> 2 ^ 52 \<le> a * 2 ^ s \<Longrightarrow> a * 2 ^ s < 2 ^ 53 \<Longrightarrow> s \<le> n \<Longrightarrow> find_up n a = s"
proof (induction s arbitrary: a n)
  case 0
  then show ?case by (cases n) simp_all
next
  case (Suc s)
  obtain n' where n: "n = Suc n'" using Suc.prems(4) by (cases n) simp_all
  have "1 \<le> (2::real) ^ s" by simp
  then have "a * 2 \<le> a * 2 * 2 ^ s" using Suc.prems(1) by simp
  then have lt: "a < 2 ^ 52" using Suc.prems(3) by simp
  have "find_up n' (2 * a) = s"
    using Suc.prems by (intro Suc.IH) (simp_all add: n mult_ac)
  then show ?case using lt by (simp add: n)
qed

lemma find_up_props: "find_up n a = k \<Longrightarrow> k \<le> n \<and> (k < n \<longrightarrow> 2 ^ 52 \<le> a * 2 ^ k)"
proof (induction n arbitrary: a k)
  case 0
  then show ?case by simp
next
  case (Suc n)
  show ?case
  proof (cases "a < 2 ^ 52")
    case True
    then have k: "k = Suc (find_up n (2 * a))" using Suc.prems by simp
    show ?thesis using Suc.IH[OF refl, of "2 * a"] by (simp add: k mult_ac)
  next
    case False
    then have "k = 0" using Suc.prems by simp
    then show ?thesis using False by simp
  qed
qed

lemma find_down_0: "a < 2 ^ 53 \<Longrightarrow> find_down n a = 0"
  by (cases n) simp_all

lemma find_down_eq:
  "2 ^ 52 \<le> a / 2 ^ s \<Longrightarrow> a / 2 ^ s < 2 ^ 53 \<Longrightarrow> s \<le> n \<Longrightarrow> find_down n a = s"
proof (induction s arbitrary: a n)
  case 0
  then show ?case by (simp add: find_down_0)
next
  case (Suc s)
  obtain n' where n: "n = Suc n'" using Suc.prems(3) by (cases n) simp_all
  have a: "2 ^ 52 * (2 * 2 ^ s) \<le> a" using Suc.prems(1) by (simp add: pos_le_divide_eq)
  have t: "(1::real) \<le> 2 ^ s" by simp
  have a': "9007199254740992 * 2 ^ s \<le> a" using a by simp
  have "9007199254740992 \<le> a" using t a' by linarith
  then have ge: "2 ^ 53 \<le> a" by simp
  have "find_down n' (a / 2) = s"
    using Suc.prems by (intro Suc.IH) (simp_all add: n)
  then show ?case using ge by (simp add: n)
qed

lemma rnd64_normal:
  assumes "2 ^ 52 \<le> \<bar>x\<bar> * 2 ^ s" "\<bar>x\<bar> * 2 ^ s < 2 ^ 53" "s \<le> 1074"
  shows "rnd64 x = Finite (of_int (round_even (x * 2 ^ s)) / 2 ^ s)"
proof (cases s)
  case 0
  then have x: "2 ^ 52 \<le> \<bar>x\<bar>" "\<bar>x\<bar> < 2 ^ 53" using assms by simp_all
  have "\<bar>x\<bar> \<le> of_int (2 ^ 53)" using x(2) by simp
  then have "\<bar>round_even x\<bar> \<le> 2 ^ 53" by (rule round_even_bound)
  then have "\<bar>real_of_int (round_even x)\<bar> \<le> 2 ^ 53"
    by (metis of_int_abs of_int_le_iff of_int_numeral of_int_power)
  moreover have "(2::real) ^ 53 < 2 ^ 1024" by simp
  ultimately have b: "\<not> 2 ^ 1024 \<le> \<bar>real_of_int (round_even x)\<bar>" by linarith
  show ?thesis using x b by (simp add: rnd64_def find_down_0 0)
next
  case (Suc s')
  have pos: "0 < \<bar>x\<bar>"
  proof (rule ccontr)
    assume "\<not> 0 < \<bar>x\<bar>"
    then have "x = 0" by simp
    then show False using assms(1) by simp
  qed
  have "1 \<le> (2::real) ^ s'" by simp
  then have "\<bar>x\<bar> * 2 \<le> \<bar>x\<bar> * 2 * 2 ^ s'" using pos by simp
  then have lt: "\<bar>x\<bar> < 2 ^ 52" using assms(2) by (simp add: Suc)
  have "find_up 1074 \<bar>x\<bar> = s" by (rule find_up_eq[OF pos assms])
  then show ?thesis using lt by (simp add: rnd64_def)
qed

lemma rnd64_big:
  assumes "2 ^ 52 \<le> \<bar>x\<bar> / 2 ^ s" "\<bar>x\<bar> / 2 ^ s < 2 ^ 53" "s \<le> 970"
  shows "rnd64 x = Finite (of_int (round_even (x / 2 ^ s)) * 2 ^ s)"
proof -
  have a: "4503599627370496 * 2 ^ s \<le> \<bar>x\<bar>" using assms(1) by (simp add: pos_le_divide_eq)
  have t: "(1::real) \<le> 2 ^ s" by simp
  have "4503599627370496 \<le> \<bar>x\<bar>" using a t by linarith
  then have ge: "\<not> \<bar>x\<bar> < 2 ^ 52" by simp
  have fd: "find_down 971 \<bar>x\<bar> = s" using assms by (intro find_down_eq) simp_all
  have "\<bar>x / 2 ^ s\<bar> \<le> of_int (2 ^ 53)" using assms(2) by simp
  then have "\<bar>round_even (x / 2 ^ s)\<bar> \<le> 2 ^ 53" by (rule round_even_bound)
  then have r: "\<bar>real_of_int (round_even (x / 2 ^ s))\<bar> \<le> 2 ^ 53"
    by (metis of_int_abs of_int_le_iff of_int_numeral of_int_power)
  have "\<bar>real_of_int (round_even (x / 2 ^ s)) * 2 ^ s\<bar>
      = \<bar>real_of_int (round_even (x / 2 ^ s))\<bar> * 2 ^ s" by (simp add: abs_mult)
  also have "\<dots> \<le> 2 ^ 53 * 2 ^ s" using r by (intro mult_right_mono) simp_all
  also have "\<dots> = 2 ^ (53 + s)" by (simp only: power_add)
  also have "\<dots> < 2 ^ 1024" by (rule power_strict_increasing) (use assms(3) in simp_all)
  finally have b: "\<not> 2 ^ 1024 \<le> \<bar>real_of_int (round_even (x / 2 ^ s)) * 2 ^ s\<bar>"
    by (simp only: not_le)
  show ?thesis unfolding rnd64_def Let_def fd by (simp only: ge b if_False)
qed

lemma rnd64_exact:
  assumes "\<bar>m\<bar> < 2 ^ 53" "s \<le> 1074"
  shows "rnd64 (of_int m / 2 ^ s) = Finite (of_int m / 2 ^ s)"
proof -
  define x where "x = real_of_int m / 2 ^ s"
  have "real_of_int \<bar>m\<bar> < real_of_int (2 ^ 53)" using assms(1) by (simp only: of_int_less_iff)
  then have m53: "\<bar>real_of_int m\<bar> < 9007199254740992" by simp
  show "rnd64 (of_int m / 2 ^ s) = Finite (of_int m / 2 ^ s)"
  proof (cases "\<bar>x\<bar> < 2 ^ 52")
    case True
    define k where "k = find_up 1074 \<bar>x\<bar>"
    have kp: "k \<le> 1074" "k < 1074 \<longrightarrow> 2 ^ 52 \<le> \<bar>x\<bar> * 2 ^ k"
      using find_up_props[OF k_def[symmetric]] by simp_all
    have sk: "s \<le> k"
    proof (rule ccontr)
      assume "\<not> s \<le> k"
      then obtain j where j: "s = k + Suc j" using less_imp_Suc_add[of k s] by auto
      then have "k < 1074" using assms(2) by simp
      then have "2 ^ 52 \<le> \<bar>x\<bar> * 2 ^ k" using kp(2) by simp
      also have "\<bar>x\<bar> * 2 ^ k = \<bar>real_of_int m\<bar> / (2 * 2 ^ j)"
        by (simp add: x_def j power_add abs_mult)
      also have "\<dots> \<le> \<bar>real_of_int m\<bar> / (2 * 1)"
        by (intro divide_left_mono mult_left_mono) simp_all
      finally have "(4503599627370496::real) \<le> \<bar>real_of_int m\<bar> / 2" by simp
      then show False using m53 by simp
    qed
    then obtain j where j: "k = s + j" using le_Suc_ex by blast
    have "x * 2 ^ k = of_int (m * 2 ^ j)" by (simp add: x_def j power_add)
    then have "round_even (x * 2 ^ k) = m * 2 ^ j"
      by (simp only: round_even_of_int)
    then have "of_int (round_even (x * 2 ^ k)) / 2 ^ k = x"
      by (simp add: x_def j power_add)
    then show ?thesis unfolding rnd64_def Let_def x_def[symmetric] k_def[symmetric]
      by (simp only: True if_True)
  next
    case False
    have s0: "s = 0"
    proof (rule ccontr)
      assume "s \<noteq> 0"
      then obtain j where j: "s = Suc j" by (cases s) simp_all
      have "\<bar>x\<bar> = \<bar>real_of_int m\<bar> / (2 * 2 ^ j)" by (simp add: x_def j)
      also have "\<dots> \<le> \<bar>real_of_int m\<bar> / (2 * 1)"
        by (intro divide_left_mono mult_left_mono) simp_all
      finally have "\<bar>x\<bar> < 4503599627370496" using m53 by simp
      then show False using False by simp
    qed
    have xm: "x = real_of_int m" by (simp add: x_def s0)
    have lt: "\<bar>x\<bar> < 2 ^ 53" using m53 by (simp add: xm)
    have fd: "find_down 971 \<bar>x\<bar> = 0" by (rule find_down_0[OF lt])
    have y: "real_of_int (round_even (x / 2 ^ 0)) * 2 ^ 0 = x" by (simp add: xm round_even_of_int)
    have "(2::real) ^ 53 \<le> 2 ^ 1024" by (rule power_increasing) simp_all
    then have b: "\<not> 2 ^ 1024 \<le> \<bar>x\<bar>" using lt by linarith
    show ?thesis unfolding rnd64_def Let_def x_def[symmetric] fd y
      by (simp only: False b if_False)
  qed
qed

text \<open>
  Every number with at most thirty binary places and magnitude below \<open>2^23\<close> is a
  \<open>double\<close>; rounding leaves it alone.
\<close>

lemma rnd64_dyadic:
  assumes "of_int \<lfloor>x * 2 ^ 30\<rfloor> = x * 2 ^ 30" "\<bar>x\<bar> < 2 ^ 23"
  shows "rnd64 x = Finite x"
proof -
  define m where "m = \<lfloor>x * 2 ^ 30\<rfloor>"
  have "real_of_int m = x * 2 ^ 30" using assms(1) unfolding m_def .
  then have x: "x = real_of_int m / 2 ^ 30" by simp
  have "\<bar>real_of_int m\<bar> = \<bar>x\<bar> * 2 ^ 30" by (simp add: x)
  also have "\<dots> < 2 ^ 23 * 2 ^ 30" using assms(2) by (intro mult_strict_right_mono) simp_all
  finally have "real_of_int \<bar>m\<bar> < real_of_int (2 ^ 53)" by simp
  then have m53: "\<bar>m\<bar> < 2 ^ 53" by (simp only: of_int_less_iff)
  show ?thesis unfolding x by (rule rnd64_exact[OF m53]) simp
qed


lemma of_size_t_double: "n < 2 ^ 53 \<Longrightarrow> (of_size_t n :: double) = Finite (real n)"
proof (induction n)
  case 0
  show ?case by (simp add: zero_double_def)
next
  case (Suc n)
  have "int (Suc n) < int (2 ^ 53)" using Suc.prems by (simp only: of_nat_less_iff)
  then have "\<bar>int n + 1\<bar> < 2 ^ 53" by simp
  then have "rnd64 (real_of_int (int n + 1) / 2 ^ 0) = Finite (real_of_int (int n + 1) / 2 ^ 0)"
    by (rule rnd64_exact) simp
  then have "rnd64 (real n + 1) = Finite (real n + 1)" by simp
  then show ?case using Suc by (simp add: one_double_def)
qed

lemma of_size_t_cdouble: "n < 2 ^ 53 \<Longrightarrow> (of_size_t n :: cdouble) = Cx (Finite (real n)) (Finite 0)"
proof (induction n)
  case 0
  show ?case by (simp add: zero_cdouble_def zero_double_def)
next
  case (Suc n)
  have a: "(of_size_t (Suc n) :: double) = Finite (real (Suc n))"
    by (rule of_size_t_double[OF Suc.prems])
  have b: "(of_size_t n :: double) = Finite (real n)"
    by (rule of_size_t_double) (use Suc.prems in simp)
  have c: "rnd64 (real n + 1) = Finite (real n + 1)" using a b by (simp add: one_double_def)
  have z: "rnd64 0 = Finite 0" using rnd64_exact[of 0 0] by simp
  show ?case using Suc c z by (simp add: one_cdouble_def one_double_def zero_double_def)
qed

text \<open>The values of the decimal literals that the evaluations below meet.\<close>

lemma lit_8: "lit (1 / 100000000) = Finite (6044629098073146 / 2 ^ 79)"
proof -
  have "rnd64 (1 / 100000000) = Finite (of_int (round_even (1 / 100000000 * 2 ^ 79)) / 2 ^ 79)"
    by (rule rnd64_normal) simp_all
  also have "round_even (1 / 100000000 * 2 ^ 79 :: real) = 6044629098073146"
    by (simp add: round_even_def Let_def)
  finally show ?thesis by (simp add: lit_def)
qed

lemma lit_9: "lit (1 / 1000000000) = Finite (4835703278458517 / 2 ^ 82)"
proof -
  have "rnd64 (1 / 1000000000) = Finite (of_int (round_even (1 / 1000000000 * 2 ^ 82)) / 2 ^ 82)"
    by (rule rnd64_normal) simp_all
  also have "round_even (1 / 1000000000 * 2 ^ 82 :: real) = 4835703278458517"
    by (simp add: round_even_def Let_def)
  finally show ?thesis by (simp add: lit_def)
qed

lemma lit_12: "lit (1 / 1000000000000) = Finite (4951760157141521 / 2 ^ 92)"
proof -
  have "rnd64 (1 / 10 ^ 12) = Finite (of_int (round_even (1 / 10 ^ 12 * 2 ^ 92)) / 2 ^ 92)"
    by (rule rnd64_normal) simp_all
  also have "round_even (1 / 10 ^ 12 * 2 ^ 92 :: real) = 4951760157141521"
    by (simp add: round_even_def Let_def)
  finally show ?thesis by (simp add: lit_def)
qed

lemma lit_16: "lit (1 / 10000000000000000) = Finite (8112963841460668 / 2 ^ 106)"
proof -
  have "rnd64 (1 / 10 ^ 16) = Finite (of_int (round_even (1 / 10 ^ 16 * 2 ^ 106)) / 2 ^ 106)"
    by (rule rnd64_normal) simp_all
  also have "round_even (1 / 10 ^ 16 * 2 ^ 106 :: real) = 8112963841460668"
    by (simp add: round_even_def Let_def)
  finally show ?thesis by (simp add: lit_def)
qed

lemma lit_17: "lit (1 / 100000000000000000) = Finite (6490371073168535 / 2 ^ 109)"
proof -
  have "rnd64 (1 / 10 ^ 17) = Finite (of_int (round_even (1 / 10 ^ 17 * 2 ^ 109)) / 2 ^ 109)"
    by (rule rnd64_normal) simp_all
  also have "round_even (1 / 10 ^ 17 * 2 ^ 109 :: real) = 6490371073168535"
    by (simp add: round_even_def Let_def)
  finally show ?thesis by (simp add: lit_def)
qed

lemma update_real_tolerance_double: "(1 / of_size_t 100000000 :: double) = lit (1 / 100000000)"
proof -
  have "(of_size_t 100000000 :: double) = Finite (real 100000000)"
    by (rule of_size_t_double) simp
  then show ?thesis by (simp add: one_double_def lit_def)
qed

lemma cabs_real_axis: "cabs (Cx (Finite a) (Finite 0)) = rnd64 \<bar>a\<bar>"
  by simp

section \<open>Properties of the polynomial operations\<close>

subsection \<open>Index loops as list functions\<close>

lemma foldl_upd_map:
  "n \<le> length xs \<Longrightarrow> foldl (\<lambda>t i. t[i := f i]) xs [0..<n] = map f [0..<n] @ drop n xs"
proof (induction n)
  case 0
  then show ?case by simp
next
  case (Suc n)
  then have n: "n < length xs" by simp
  have "foldl (\<lambda>t i. t[i := f i]) xs [0..<Suc n] = (map f [0..<n] @ drop n xs)[n := f n]"
    using Suc by simp
  also have "\<dots> = map f [0..<n] @ (drop n xs)[0 := f n]"
    by (simp add: list_update_append)
  also have "drop n xs = xs ! n # drop (Suc n) xs"
    using n by (simp add: Cons_nth_drop_Suc)
  finally show ?case by simp
qed

lemma plus_fold:
  assumes "m \<le> Suc e" "e \<le> d" "length xs = Suc d"
  shows "foldl (\<lambda>t i. t[d - i := t ! (d - i) + r ! (e - i)]) xs [0..<m]
     = map (\<lambda>k. if d - k < m then xs ! k + r ! (e - (d - k)) else xs ! k) [0..<Suc d]"
  using assms(1)
proof (induction m)
  case 0
  have "map ((!) xs) [0..<length xs] = xs" by (rule map_nth)
  then show ?case using assms(3) by (simp del: upt_Suc)
next
  case (Suc m)
  let ?g = "\<lambda>m k. if d - k < m then xs ! k + r ! (e - (d - k)) else xs ! k"
  have IH: "foldl (\<lambda>t i. t[d - i := t ! (d - i) + r ! (e - i)]) xs [0..<m] = map (?g m) [0..<Suc d]"
    using Suc by simp
  have md: "m \<le> d" using Suc.prems assms(2) by simp
  have "foldl (\<lambda>t i. t[d - i := t ! (d - i) + r ! (e - i)]) xs [0..<Suc m]
      = (map (?g m) [0..<Suc d])[d - m := map (?g m) [0..<Suc d] ! (d - m) + r ! (e - m)]"
    using IH by simp
  also have "\<dots> = map (?g (Suc m)) [0..<Suc d]"
  proof (rule nth_equalityI)
    show "length ((map (?g m) [0..<Suc d])[d - m := map (?g m) [0..<Suc d] ! (d - m) + r ! (e - m)]) = length (map (?g (Suc m)) [0..<Suc d])"
      by simp
  next
    fix k assume "k < length ((map (?g m) [0..<Suc d])[d - m := map (?g m) [0..<Suc d] ! (d - m) + r ! (e - m)])"
    then have k: "k < Suc d" by simp
    show "(map (?g m) [0..<Suc d])[d - m := map (?g m) [0..<Suc d] ! (d - m) + r ! (e - m)] ! k = map (?g (Suc m)) [0..<Suc d] ! k"
    proof (cases "k = d - m")
      case True
      have dm: "d - (d - m) = m" using md by simp
      have a: "map (?g m) [0..<Suc d] ! (d - m) = xs ! (d - m)"
        using md nth_map_upt[of "d - m" "Suc d" 0 "?g m"] dm by simp
      show ?thesis unfolding True
        using md nth_map_upt[of "d - m" "Suc d" 0 "?g (Suc m)"] a dm by simp
    next
      case False
      then have ne: "d - k \<noteq> m" using k by auto
      show ?thesis
        using False k ne nth_map_upt[of k "Suc d" 0 "?g m"] nth_map_upt[of k "Suc d" 0 "?g (Suc m)"] 
        by (auto simp del: upt_Suc)
    qed
  qed
  finally show ?case .
qed

lemma poly_inv_length: "poly_inv p \<Longrightarrow> length (coef p) = Suc (deg p)"
  by (cases "coef p") (auto simp: poly_inv_def)

lemma antider_coef:
  assumes "poly_inv p"
  shows "coef (antider p) =
           (if deg p = 0 then [coef p ! 0, 0]
            else map (\<lambda>i. coef p ! i / of_size_t (deg p - i + 1)) [0..<Suc (deg p)] @ [0])"
proof (cases "deg p = 0")
  case True
  then show ?thesis by (simp add: antider_def Poly_of_vector_def)
next
  case False
  have "foldl (\<lambda>tmp i. tmp[i := coef p ! i / of_size_t (deg p - i + 1)])
           (replicate (deg p + 2) (0::'a)) [0..<Suc (deg p)]
        = map (\<lambda>i. coef p ! i / of_size_t (deg p - i + 1)) [0..<Suc (deg p)]
            @ drop (Suc (deg p)) (replicate (deg p + 2) 0)"
    by (rule foldl_upd_map) simp
  moreover have "drop (Suc (deg p)) (replicate (deg p + 2) (0::'a)) = [0]"
    by (simp only: drop_replicate, simp)
  ultimately show ?thesis using False by (simp only: antider_def Poly_of_vector_def if_False Poly.simps)
qed

lemma antider_length: "poly_inv p \<Longrightarrow> length (coef (antider p)) = deg p + 2"
  by (simp add: antider_coef del: upt_Suc)

lemma antider_deg: "deg (antider p) = Suc (deg p)"
proof (cases "deg p = 0")
  case True
  then show ?thesis by (simp add: antider_def Poly_of_vector_def size_minus_one_def)
next
  case False
  have "length (foldl (\<lambda>tmp i. tmp[i := coef p ! i / of_size_t (deg p - i + 1)])
           (replicate (deg p + 2) (0::'a)) [0..<Suc (deg p)]) = deg p + 2"
    by (subst foldl_upd_map) (simp_all del: upt_Suc)
  then show ?thesis using False by (simp add: antider_def Poly_of_vector_def size_minus_one_def del: upt_Suc)
qed

lemma der_coef_general:
  assumes "2 \<le> deg p"
  shows "coef (der p) = map (\<lambda>i. coef p ! i * of_size_t (deg p - i)) [0..<deg p]"
proof -
  have "foldl (\<lambda>tmp i. tmp[i := coef p ! i * of_size_t (deg p - i)]) (replicate (deg p) (0::'a)) [0..<deg p]
      = map (\<lambda>i. coef p ! i * of_size_t (deg p - i)) [0..<deg p] @ drop (deg p) (replicate (deg p) 0)"
    by (rule foldl_upd_map) simp
  then show ?thesis using assms by (simp add: der_def Poly_of_vector_def)
qed


lemma plus_deg: "deg (plus lhs rhs) = deg lhs"
  by (simp add: plus_def Poly_copy_def Let_def)

lemma plus_coef:
  assumes "length (coef lhs) = Suc (deg lhs)" "deg rhs \<le> deg lhs"
  shows "coef (plus lhs rhs) =
    map (\<lambda>k. if deg lhs - k < Suc (deg rhs)
              then coef lhs ! k + coef rhs ! (deg rhs - (deg lhs - k)) else coef lhs ! k)
      [0..<Suc (deg lhs)]"
  using plus_fold[of "Suc (deg rhs)" "deg rhs" "deg lhs" "coef lhs" "coef rhs"] assms
  by (simp add: plus_def Poly_copy_def Let_def del: upt_Suc)

lemma plus_length:
  assumes "length (coef lhs) = Suc (deg lhs)" "deg rhs \<le> deg lhs"
  shows "length (coef (plus lhs rhs)) = Suc (deg lhs)"
  by (simp add: plus_coef[OF assms] del: upt_Suc)

lemma plus_nth:
  assumes "length (coef lhs) = Suc (deg lhs)" "deg rhs \<le> deg lhs" "k \<le> deg lhs"
  shows "coef (plus lhs rhs) ! k =
     (if deg lhs - k < Suc (deg rhs)
      then coef lhs ! k + coef rhs ! (deg rhs - (deg lhs - k)) else coef lhs ! k)"
  using assms(3) nth_map_upt[of k "Suc (deg lhs)" 0]
  by (simp add: plus_coef[OF assms(1,2)] del: upt_Suc)

lemma uminus_deg: "deg (uminus_poly p) = deg p"
  by (simp add: uminus_poly_def Poly_copy_def Let_def)

lemma uminus_coef:
  assumes "length (coef p) = Suc (deg p)"
  shows "coef (uminus_poly p) = map (\<lambda>i. - (coef p ! i)) [0..<Suc (deg p)]"
  using foldl_upd_map[of "Suc (deg p)" "coef p" "\<lambda>i. - (coef p ! i)"] assms
  by (simp add: uminus_poly_def Poly_copy_def Let_def del: upt_Suc)

lemma uminus_nth:
  assumes "length (coef p) = Suc (deg p)" "k \<le> deg p"
  shows "coef (uminus_poly p) ! k = - (coef p ! k)"
  using assms(2) nth_map_upt[of k "Suc (deg p)" 0]
  by (simp add: uminus_coef[OF assms(1)] del: upt_Suc)

lemma sub_add_coef_gen:
  assumes "poly_inv A" "poly_inv B"
  shows "deg B \<le> deg A \<Longrightarrow> coef (sub (add A B) B) =
           map (\<lambda>k. if deg A - k \<le> deg B
                     then coef A ! k + coef B ! (deg B - (deg A - k)) + - coef B ! (deg B - (deg A - k))
                     else coef A ! k) [0..<Suc (deg A)]"
    and "deg A < deg B \<Longrightarrow> coef (sub (add A B) B) =
           map (\<lambda>k. (if deg B - k \<le> deg A then coef B ! k + coef A ! (deg A - (deg B - k))
                      else coef B ! k) + - coef B ! k) [0..<Suc (deg B)]"
proof -
  let ?U = "uminus_poly B"
  have lA: "length (coef A) = Suc (deg A)" and lB: "length (coef B) = Suc (deg B)"
    using assms by (simp_all add: poly_inv_length)
  have dU: "deg ?U = deg B" by (rule uminus_deg)
  have lU: "length (coef ?U) = Suc (deg ?U)" by (simp add: uminus_coef[OF lB] dU del: upt_Suc)
  {
    assume le0: "deg B \<le> deg A"
    let ?S = "plus A B"
    let ?f = "\<lambda>k. if deg A - k \<le> deg B
                     then coef A ! k + coef B ! (deg B - (deg A - k)) + - coef B ! (deg B - (deg A - k))
                     else coef A ! k"
    have S: "add A B = ?S" using le0 by (simp add: add_def)
    have dS: "deg ?S = deg A" by (rule plus_deg)
    have lS: "length (coef ?S) = Suc (deg ?S)" using plus_length[OF lA le0] dS by simp
    have le: "deg ?U \<le> deg ?S" using le0 dS dU by simp
    have R: "sub (add A B) B = plus ?S ?U" using le S by (simp add: sub_def add_def)
    have "coef (plus ?S ?U) = map ?f [0..<Suc (deg A)]"
    proof (rule nth_equalityI)
      show "length (coef (plus ?S ?U)) = length (map ?f [0..<Suc (deg A)])"
        using plus_length[OF lS le] dS by (simp del: upt_Suc)
    next
      fix k assume "k < length (coef (plus ?S ?U))"
      then have k: "k \<le> deg A" using plus_length[OF lS le] dS by simp
      then have k': "k \<le> deg ?S" using dS by simp
      have m: "map ?f [0..<Suc (deg A)] ! k = ?f k"
        using k nth_map_upt[of k "Suc (deg A)" 0 ?f] by (simp del: upt_Suc)
      have u: "deg A - k \<le> deg B \<Longrightarrow>
          coef ?U ! (deg B - (deg A - k)) = - coef B ! (deg B - (deg A - k))"
        by (rule uminus_nth[OF lB]) simp
      show "coef (plus ?S ?U) ! k = map ?f [0..<Suc (deg A)] ! k"
        unfolding m using plus_nth[OF lS le k'] plus_nth[OF lA le0 k] u
        by (simp add: dS dU less_Suc_eq_le)
    qed
    then show "coef (sub (add A B) B) = map ?f [0..<Suc (deg A)]" using R by simp
  }
  {
    assume lt0: "deg A < deg B"
    then have lt: "deg A \<le> deg B" by simp
    let ?S = "plus B A"
    let ?f = "\<lambda>k. (if deg B - k \<le> deg A then coef B ! k + coef A ! (deg A - (deg B - k))
                      else coef B ! k) + - coef B ! k"
    have S: "add A B = ?S" using lt0 by (simp add: add_def)
    have dS: "deg ?S = deg B" by (rule plus_deg)
    have lS: "length (coef ?S) = Suc (deg ?S)" using plus_length[OF lB lt] dS by simp
    have le: "deg ?U \<le> deg ?S" using dS dU by simp
    have R: "sub (add A B) B = plus ?S ?U" using le S by (simp add: sub_def add_def)
    have "coef (plus ?S ?U) = map ?f [0..<Suc (deg B)]"
    proof (rule nth_equalityI)
      show "length (coef (plus ?S ?U)) = length (map ?f [0..<Suc (deg B)])"
        using plus_length[OF lS le] dS by (simp del: upt_Suc)
    next
      fix k assume "k < length (coef (plus ?S ?U))"
      then have k: "k \<le> deg B" using plus_length[OF lS le] dS by simp
      then have k': "k \<le> deg ?S" using dS by simp
      have m: "map ?f [0..<Suc (deg B)] ! k = ?f k"
        using k nth_map_upt[of k "Suc (deg B)" 0 ?f] by (simp del: upt_Suc)
      have e: "deg B - (deg B - k) = k" using k by simp
      show "coef (plus ?S ?U) ! k = map ?f [0..<Suc (deg B)] ! k"
        unfolding m using plus_nth[OF lS le k'] plus_nth[OF lB lt k] uminus_nth[OF lB k] k
        by (simp add: dS dU e less_Suc_eq_le)
    qed
    then show "coef (sub (add A B) B) = map ?f [0..<Suc (deg B)]" using R by simp
  }
qed

lemma sub_add_coef:
  fixes A B :: "'a::field Poly"
  assumes "poly_inv A" "poly_inv B"
  shows "coef (sub (add A B) B) = replicate (deg B - deg A) 0 @ coef A"
proof -
  let ?U = "uminus_poly B"
  have lA: "length (coef A) = Suc (deg A)" and lB: "length (coef B) = Suc (deg B)"
    using assms by (simp_all add: poly_inv_length)
  have dU: "deg ?U = deg B" by (rule uminus_deg)
  have lU: "length (coef ?U) = Suc (deg ?U)" by (simp add: uminus_coef[OF lB] dU del: upt_Suc)
  show ?thesis
  proof (cases "deg B \<le> deg A")
    case True
    let ?S = "plus A B"
    have S: "add A B = ?S" using True by (simp add: add_def)
    have dS: "deg ?S = deg A" by (rule plus_deg)
    have lS: "length (coef ?S) = Suc (deg ?S)" using plus_length[OF lA True] dS by simp
    have le: "deg ?U \<le> deg ?S" using True dS dU by simp
    have R: "sub (add A B) B = plus ?S ?U" using le S by (simp add: sub_def add_def)
    have "coef (plus ?S ?U) = coef A"
    proof (rule nth_equalityI)
      show "length (coef (plus ?S ?U)) = length (coef A)"
        using plus_length[OF lS le] dS lA by simp
    next
      fix k assume "k < length (coef (plus ?S ?U))"
      then have k: "k \<le> deg A" using plus_length[OF lS le] dS by simp
      then have k': "k \<le> deg ?S" using dS by simp
      have "deg A - k \<le> deg B \<Longrightarrow> deg B - (deg A - k) \<le> deg B" by simp
      then show "coef (plus ?S ?U) ! k = coef A ! k"
        using plus_nth[OF lS le k'] plus_nth[OF lA True k] uminus_nth[OF lB, of "deg B - (deg A - k)"]
        by (simp add: dS dU)
    qed
    then show ?thesis using R True by simp
  next
    case False
    then have lt: "deg A \<le> deg B" by simp
    let ?S = "plus B A"
    have S: "add A B = ?S" using False by (simp add: add_def)
    have dS: "deg ?S = deg B" by (rule plus_deg)
    have lS: "length (coef ?S) = Suc (deg ?S)" using plus_length[OF lB lt] dS by simp
    have le: "deg ?U \<le> deg ?S" using dS dU by simp
    have R: "sub (add A B) B = plus ?S ?U" using le S by (simp add: sub_def add_def)
    have "coef (plus ?S ?U) = replicate (deg B - deg A) 0 @ coef A"
    proof (rule nth_equalityI)
      show "length (coef (plus ?S ?U)) = length (replicate (deg B - deg A) (0::'a) @ coef A)"
        using plus_length[OF lS le] dS lA lt by simp
    next
      fix k assume "k < length (coef (plus ?S ?U))"
      then have k: "k \<le> deg B" using plus_length[OF lS le] dS by simp
      then have k': "k \<le> deg ?S" using dS by simp
      have e: "deg B - (deg B - k) = k" using k by simp
      have f: "deg B - k \<le> deg A \<Longrightarrow> deg A - (deg B - k) = k - (deg B - deg A)" using k lt by simp
      show "coef (plus ?S ?U) ! k = (replicate (deg B - deg A) 0 @ coef A) ! k"
        using plus_nth[OF lS le k'] plus_nth[OF lB lt k] uminus_nth[OF lB k] k lt f
        by (auto simp add: dS dU e nth_append)
    qed
    then show ?thesis using R by simp
  qed
qed

subsection \<open>Trimming\<close>

lemma update_scan_True:
  "small (cs ! i) \<Longrightarrow> i < n \<Longrightarrow> update_scan small cs n i = update_scan small cs n (i + 1)"
  using update_scan.simps[of small cs n i] by (simp only: simp_thms if_True)

lemma update_scan_False:
  "\<not> (small (cs ! i) \<and> i < n) \<Longrightarrow> update_scan small cs n i = i"
  using update_scan.simps[of small cs n i] by (simp only: if_False)

lemma update_scan_le: "i \<le> n \<Longrightarrow> update_scan small cs n i \<le> n"
proof (induction small cs n i rule: update_scan.induct)
  case (1 small cs n i)
  show ?case
  proof (cases "small (cs ! i) \<and> i < n")
    case True
    then show ?thesis using "1.IH"[OF True] update_scan_True[of small cs i n] by simp
  next
    case False
    then show ?thesis using "1.prems" update_scan_False[of small cs i n] by simp
  qed
qed

lemma update_scan_ge: "i \<le> update_scan small cs n i"
proof (induction small cs n i rule: update_scan.induct)
  case (1 small cs n i)
  show ?case
  proof (cases "small (cs ! i) \<and> i < n")
    case True
    then show ?thesis using "1.IH"[OF True] update_scan_True[of small cs i n] by simp
  next
    case False
    then show ?thesis using update_scan_False[of small cs i n] by simp
  qed
qed

lemma update_scan_small: "i \<le> k \<Longrightarrow> k < update_scan small cs n i \<Longrightarrow> small (cs ! k)"
proof (induction small cs n i rule: update_scan.induct)
  case (1 small cs n i)
  show ?case
  proof (cases "small (cs ! i) \<and> i < n")
    case True
    then have u: "update_scan small cs n i = update_scan small cs n (i + 1)"
      using update_scan_True[of small cs i n] by simp
    show ?thesis
    proof (cases "k = i")
      case True
      then show ?thesis using \<open>small (cs ! i) \<and> i < n\<close> by simp
    next
      case False
      then have "i + 1 \<le> k" using "1.prems"(1) by simp
      then show ?thesis using "1.IH"[OF True] "1.prems"(2) u by simp
    qed
  next
    case False
    then have "update_scan small cs n i = i" using update_scan_False[of small cs i n] by simp
    then show ?thesis using "1.prems" by simp
  qed
qed

lemma update_scan_skip:
  "\<forall>k. i \<le> k \<and> k < m \<longrightarrow> small (cs ! k) \<Longrightarrow> i \<le> m \<Longrightarrow> m \<le> n \<Longrightarrow> m \<le> update_scan small cs n i"
proof (induction small cs n i rule: update_scan.induct)
  case (1 small cs n i)
  show ?case
  proof (cases "i = m")
    case True
    show ?thesis using update_scan_ge[of i small cs n] True by simp
  next
    case False
    then have im: "i < m" using "1.prems" by simp
    then have c: "small (cs ! i) \<and> i < n" using "1.prems" by auto
    then have u: "update_scan small cs n i = update_scan small cs n (i + 1)"
      using update_scan_True[of small cs i n] by simp
    have a: "\<forall>k. i + 1 \<le> k \<and> k < m \<longrightarrow> small (cs ! k)" using "1.prems"(1) by simp
    have b: "i + 1 \<le> m" using im by simp
    show ?thesis unfolding u by (rule "1.IH"[OF c a b "1.prems"(3)])
  qed
qed

lemma trim_unfold_aux:
  assumes "i0 = update_scan small (coef p) (deg p) 0" "i0 \<le> deg p"
  shows "trim small p = p\<lparr>coef := drop i0 (coef p), deg := deg p - i0\<rparr>"
proof -
  have ne: "(i0 = deg p + 1) = False" using assms(2) by simp
  have "trim small p = (if i0 = deg p + 1 then p\<lparr>deg := 0, coef := [0]\<rparr>
         else p\<lparr>coef := drop i0 (coef p), deg := deg p - i0\<rparr>)"
    unfolding trim_def assms(1) Let_def ..
  then show ?thesis unfolding ne if_False .
qed

lemma trim_unfold:
  "trim small p = p\<lparr>coef := drop (update_scan small (coef p) (deg p) 0) (coef p),
                       deg := deg p - update_scan small (coef p) (deg p) 0\<rparr>"
proof -
  have a: "update_scan small (coef p) (deg p) 0 = update_scan small (coef p) (deg p) 0" ..
  have b: "update_scan small (coef p) (deg p) 0 \<le> deg p" 
    using update_scan_le[of 0 "deg p" small "coef p"] by simp
  show ?thesis using trim_unfold_aux[of "update_scan small (coef p) (deg p) 0" small p, OF a b] .
qed

lemma trim_shape:
  shows "coef (trim small p) = drop (update_scan small (coef p) (deg p) 0) (coef p)"
    and "deg (trim small p) = deg p - update_scan small (coef p) (deg p) 0"
  by (simp_all add: trim_unfold)

lemma poly_invI: "length (coef p) = Suc (deg p) \<Longrightarrow> poly_inv p"
  by (cases "coef p") (simp_all add: poly_inv_def)

lemma trim_inv:
  assumes "poly_inv p"
  shows "poly_inv (trim small p)"
proof (rule poly_invI)
  have "update_scan small (coef p) (deg p) 0 \<le> deg p" by (rule update_scan_le) simp
  then show "length (coef (trim small p)) = Suc (deg (trim small p))"
    using poly_inv_length[OF assms] by (simp add: trim_shape)
qed

subsection \<open>The division loop\<close>

lemma map_nth_upt: "k < n \<Longrightarrow> map f [0..<n] ! k = f k"
  using nth_map_upt[of k n 0 f] by simp

lemma div_inner:
  assumes "i + m < length r"
  shows "foldl (\<lambda>r j. r[i + j := r ! (i + j) - b ! j * a / b0]) r [1..<Suc m]
       = map (\<lambda>k. if i < k \<and> k \<le> i + m then r ! k - b ! (k - i) * a / b0 else r ! k)
           [0..<length r]"
  using assms
proof (induction m)
  case 0
  have "(\<lambda>k. if i < k \<and> k \<le> i + 0 then r ! k - b ! (k - i) * a / b0 else r ! k) = (!) r"
    by (rule ext) auto
  then show ?case using map_nth[of r] by simp
next
  case (Suc m)
  let ?g = "\<lambda>m k. if i < k \<and> k \<le> i + m then r ! k - b ! (k - i) * a / b0 else r ! k"
  let ?L = "map (?g m) [0..<length r]"
  have IH: "foldl (\<lambda>r j. r[i + j := r ! (i + j) - b ! j * a / b0]) r [1..<Suc m] = ?L"
    using Suc by simp
  have lt: "i + Suc m < length r" using Suc.prems .
  have "foldl (\<lambda>r j. r[i + j := r ! (i + j) - b ! j * a / b0]) r [1..<Suc (Suc m)]
      = ?L[i + Suc m := ?L ! (i + Suc m) - b ! Suc m * a / b0]"
    using IH by simp
  also have "\<dots> = map (?g (Suc m)) [0..<length r]"
  proof (rule nth_equalityI)
    show "length (?L[i + Suc m := ?L ! (i + Suc m) - b ! Suc m * a / b0]) = length (map (?g (Suc m)) [0..<length r])"
      by simp
  next
    fix k assume "k < length (?L[i + Suc m := ?L ! (i + Suc m) - b ! Suc m * a / b0])"
    then have k: "k < length r" by simp
    show "?L[i + Suc m := ?L ! (i + Suc m) - b ! Suc m * a / b0] ! k = map (?g (Suc m)) [0..<length r] ! k"
    proof (cases "k = i + Suc m")
      case True
      show ?thesis unfolding True using lt by (simp add: map_nth_upt)
    next
      case False
      then show ?thesis using k by (auto simp add: map_nth_upt)
    qed
  qed
  finally show ?case .
qed

lemma div_step_fst_raw:
  assumes "i + d2 < length cs"
  shows "fst (div_step b d2 (cs, res) i)
       = map (\<lambda>k. if i < k \<and> k \<le> i + d2 then cs[i := 0] ! k - b ! (k - i) * (cs ! i) / b ! 0
                  else cs[i := 0] ! k)
           [0..<length cs]"
proof -
  have l: "i + d2 < length (cs[i := 0])" using assms(1) by simp
  show ?thesis
    using div_inner[OF l, of b "cs ! i" "b ! 0"] by (simp add: div_step_def Let_def)
qed

lemma div_step_snd: "snd (div_step b d2 (cs, res) i) = res @ [cs ! i / b ! 0]"
  by (simp add: div_step_def Let_def)

lemma div_loop_shape:
  assumes "length cs0 = Suc d1" "d2 \<le> d1" "m \<le> Suc (d1 - d2)"
  shows "length (fst (foldl (div_step b d2) (cs0, []) [0..<m])) = Suc d1
       \<and> length (snd (foldl (div_step b d2) (cs0, []) [0..<m])) = m
       \<and> (\<forall>k<m. fst (foldl (div_step b d2) (cs0, []) [0..<m]) ! k = 0)"
  using assms(3)
proof (induction m)
  case 0
  then show ?case using assms(1) by simp
next
  case (Suc m)
  obtain cs res where st: "foldl (div_step b d2) (cs0, []) [0..<m] = (cs, res)"
    by (cases "foldl (div_step b d2) (cs0, []) [0..<m]")
  have IH: "length cs = Suc d1" "length res = m" "\<forall>k<m. cs ! k = 0"
    using Suc unfolding st by simp_all
  have md: "m + d2 < length cs" using Suc.prems assms(2) IH(1) by simp
  let ?st' = "div_step b d2 (cs, res) m"
  have step: "foldl (div_step b d2) (cs0, []) [0..<Suc m] = ?st'" using st by simp
  have f: "fst ?st' = map (\<lambda>k. if m < k \<and> k \<le> m + d2
                  then cs[m := 0] ! k - b ! (k - m) * (cs ! m) / b ! 0 else cs[m := 0] ! k)
           [0..<length cs]"
    by (rule div_step_fst_raw[OF md])
  have s: "snd ?st' = res @ [cs ! m / b ! 0]" by (rule div_step_snd)
  have 1: "length (fst ?st') = Suc d1" using f IH(1) by simp
  have 2: "length (snd ?st') = Suc m" using s IH(2) by simp
  have 3: "\<forall>k<Suc m. fst ?st' ! k = 0"
  proof (intro allI impI)
    fix k assume k: "k < Suc m"
    then have kl: "k < length cs" using md by simp
    show "fst ?st' ! k = 0"
    proof (cases "k = m")
      case True
      then show ?thesis using kl by (simp add: f map_nth_upt)
    next
      case False
      then have "k < m" using k by simp
      then show ?thesis using kl IH(3) by (simp add: f map_nth_upt)
    qed
  qed
  show ?case unfolding step using 1 2 3 by blast
qed

lemma div_step_fst:
  fixes b :: "'a::field list"
  assumes "i + d2 < length cs" "b ! 0 \<noteq> 0"
  shows "fst (div_step b d2 (cs, res) i)
       = map (\<lambda>k. if i \<le> k \<and> k \<le> i + d2 then cs ! k - b ! (k - i) * (cs ! i / b ! 0) else cs ! k)
           [0..<length cs]"
proof -
  have l: "i + d2 < length (cs[i := 0])" using assms(1) by simp
  have "fst (div_step b d2 (cs, res) i)
      = map (\<lambda>k. if i < k \<and> k \<le> i + d2 then cs[i := 0] ! k - b ! (k - i) * (cs ! i) / b ! 0 else cs[i := 0] ! k)
           [0..<length cs]"
    using div_inner[OF l, of b "cs ! i" "b ! 0"] by (simp add: div_step_def Let_def)
  also have "\<dots> = map (\<lambda>k. if i \<le> k \<and> k \<le> i + d2 then cs ! k - b ! (k - i) * (cs ! i / b ! 0) else cs ! k)
           [0..<length cs]"
  proof (rule map_cong[OF refl])
    fix k assume "k \<in> set [0..<length cs]"
    then have k: "k < length cs" by simp
    show "(if i < k \<and> k \<le> i + d2 then cs[i := 0] ! k - b ! (k - i) * (cs ! i) / b ! 0 else cs[i := 0] ! k)
        = (if i \<le> k \<and> k \<le> i + d2 then cs ! k - b ! (k - i) * (cs ! i / b ! 0) else cs ! k)"
      using k assms(2) by (cases "k = i") auto
  qed
  finally show ?thesis .
qed

lemma div_loop_inv:
  fixes b :: "'a::field list"
  assumes "length cs0 = Suc d1" "d2 \<le> d1" "b ! 0 \<noteq> 0" "m \<le> Suc (d1 - d2)"
  shows "length (fst (foldl (div_step b d2) (cs0, []) [0..<m])) = Suc d1
       \<and> length (snd (foldl (div_step b d2) (cs0, []) [0..<m])) = m
       \<and> (\<forall>k<m. fst (foldl (div_step b d2) (cs0, []) [0..<m]) ! k = 0)
       \<and> (\<forall>k\<le>d1. cs0 ! k = fst (foldl (div_step b d2) (cs0, []) [0..<m]) ! k
              + (\<Sum>t<m. if t \<le> k \<and> k \<le> t + d2
                         then b ! (k - t) * snd (foldl (div_step b d2) (cs0, []) [0..<m]) ! t else 0))"
  using assms(4)
proof (induction m)
  case 0
  then show ?case using assms(1) by simp
next
  case (Suc m)
  obtain cs res where st: "foldl (div_step b d2) (cs0, []) [0..<m] = (cs, res)"
    by (cases "foldl (div_step b d2) (cs0, []) [0..<m]")
  have IH: "length cs = Suc d1" "length res = m" "\<forall>k<m. cs ! k = 0"
       "\<forall>k\<le>d1. cs0 ! k = cs ! k + (\<Sum>t<m. if t \<le> k \<and> k \<le> t + d2 then b ! (k - t) * res ! t else 0)"
    using Suc unfolding st by (simp_all cong: if_cong)
  have md: "m + d2 < length cs" using Suc.prems assms(2) IH(1) by simp
  let ?st' = "div_step b d2 (cs, res) m"
  have step: "foldl (div_step b d2) (cs0, []) [0..<Suc m] = ?st'" using st by simp
  have f: "fst ?st' = map (\<lambda>k. if m \<le> k \<and> k \<le> m + d2 then cs ! k - b ! (k - m) * (cs ! m / b ! 0) else cs ! k)
           [0..<length cs]"
    by (rule div_step_fst[OF md assms(3)])
  have s: "snd ?st' = res @ [cs ! m / b ! 0]" by (rule div_step_snd)
  have 1: "length (fst ?st') = Suc d1" using f IH(1) by simp
  have 2: "length (snd ?st') = Suc m" using s IH(2) by simp
  have 3: "\<forall>k<Suc m. fst ?st' ! k = 0"
  proof (intro allI impI)
    fix k assume k: "k < Suc m"
    then have kl: "k < length cs" using md by simp
    show "fst ?st' ! k = 0"
    proof (cases "k = m")
      case True
      then show ?thesis using kl assms(3) by (simp add: f map_nth_upt)
    next
      case False
      then have "k < m" using k by simp
      then show ?thesis using kl IH(3) by (simp add: f map_nth_upt)
    qed
  qed
  have 4: "\<forall>k\<le>d1. cs0 ! k = fst ?st' ! k
              + (\<Sum>t<Suc m. if t \<le> k \<and> k \<le> t + d2 then b ! (k - t) * snd ?st' ! t else 0)"
  proof (intro allI impI)
    fix k assume k: "k \<le> d1"
    then have kl: "k < length cs" using IH(1) by simp
    have "(\<Sum>t<m. if t \<le> k \<and> k \<le> t + d2 then b ! (k - t) * snd ?st' ! t else 0)
        = (\<Sum>t<m. if t \<le> k \<and> k \<le> t + d2 then b ! (k - t) * res ! t else 0)"
      by (rule sum.cong[OF refl]) (simp add: s nth_append IH(2) cong: if_cong)
    moreover have "snd ?st' ! m = cs ! m / b ! 0" by (simp add: s nth_append IH(2))
    ultimately have "(\<Sum>t<Suc m. if t \<le> k \<and> k \<le> t + d2 then b ! (k - t) * snd ?st' ! t else 0)
        = (\<Sum>t<m. if t \<le> k \<and> k \<le> t + d2 then b ! (k - t) * res ! t else 0)
          + (if m \<le> k \<and> k \<le> m + d2 then b ! (k - m) * (cs ! m / b ! 0) else 0)"
      by simp
    moreover have "fst ?st' ! k = (if m \<le> k \<and> k \<le> m + d2 then cs ! k - b ! (k - m) * (cs ! m / b ! 0) else cs ! k)"
      using kl by (simp add: f map_nth_upt)
    ultimately show "cs0 ! k = fst ?st' ! k
              + (\<Sum>t<Suc m. if t \<le> k \<and> k \<le> t + d2 then b ! (k - t) * snd ?st' ! t else 0)"
      using IH(4) k by simp
  qed
  show ?case unfolding step using 1 2 3 4 by blast
qed

subsection \<open>Multiplication as a convolution\<close>

lemma foldl_length:
  assumes "\<And>r i. length (F r i) = length r"
  shows "length (foldl F xs js) = length xs"
  by (induction js arbitrary: xs) (simp_all add: assms)

lemma times_inner:
  fixes r :: "'a::field list"
  assumes "i + m \<le> length r"
  shows "foldl (\<lambda>r j. r[i + j := r ! (i + j) + x * q ! j]) r [0..<m]
       = map (\<lambda>k. if i \<le> k \<and> k < i + m then r ! k + x * q ! (k - i) else r ! k) [0..<length r]"
  using assms
proof (induction m)
  case 0
  have "(\<lambda>k. if i \<le> k \<and> k < i + 0 then r ! k + x * q ! (k - i) else r ! k) = (!) r"
    by (rule ext) auto
  then show ?case using map_nth[of r] by simp
next
  case (Suc m)
  let ?g = "\<lambda>m k. if i \<le> k \<and> k < i + m then r ! k + x * q ! (k - i) else r ! k"
  let ?L = "map (?g m) [0..<length r]"
  have IH: "foldl (\<lambda>r j. r[i + j := r ! (i + j) + x * q ! j]) r [0..<m] = ?L"
    using Suc by simp
  have lt: "i + m < length r" using Suc.prems by simp
  have "foldl (\<lambda>r j. r[i + j := r ! (i + j) + x * q ! j]) r [0..<Suc m]
      = ?L[i + m := ?L ! (i + m) + x * q ! m]"
    using IH by simp
  also have "\<dots> = map (?g (Suc m)) [0..<length r]"
  proof (rule nth_equalityI)
    show "length (?L[i + m := ?L ! (i + m) + x * q ! m]) = length (map (?g (Suc m)) [0..<length r])"
      by simp
  next
    fix k assume "k < length (?L[i + m := ?L ! (i + m) + x * q ! m])"
    then have k: "k < length r" by simp
    show "?L[i + m := ?L ! (i + m) + x * q ! m] ! k = map (?g (Suc m)) [0..<length r] ! k"
    proof (cases "k = i + m")
      case True
      show ?thesis unfolding True using lt by (simp add: map_nth_upt)
    next
      case False
      then show ?thesis using k by (auto simp add: map_nth_upt)
    qed
  qed
  finally show ?case .
qed

lemma times_outer:
  fixes r :: "'a::field list"
  assumes "m1 + m2 \<le> Suc (length r)"
  shows "foldl (\<lambda>r i. foldl (\<lambda>r j. r[i + j := r ! (i + j) + p ! i * q ! j]) r [0..<m2]) r [0..<m1]
       = map (\<lambda>k. r ! k + (\<Sum>i<m1. if i \<le> k \<and> k < i + m2 then p ! i * q ! (k - i) else 0))
           [0..<length r]"
  using assms
proof (induction m1)
  case 0
  show ?case using map_nth[of r] by simp
next
  case (Suc m1)
  let ?s = "\<lambda>m1 k. (\<Sum>i<m1. if i \<le> k \<and> k < i + m2 then p ! i * q ! (k - i) else 0)"
  let ?L = "map (\<lambda>k. r ! k + ?s m1 k) [0..<length r]"
  have IH: "foldl (\<lambda>r i. foldl (\<lambda>r j. r[i + j := r ! (i + j) + p ! i * q ! j]) r [0..<m2]) r [0..<m1] = ?L"
    using Suc by simp
  have lt: "m1 + m2 \<le> length ?L" using Suc.prems by simp
  have "foldl (\<lambda>r i. foldl (\<lambda>r j. r[i + j := r ! (i + j) + p ! i * q ! j]) r [0..<m2]) r [0..<Suc m1]
      = foldl (\<lambda>r j. r[m1 + j := r ! (m1 + j) + p ! m1 * q ! j]) ?L [0..<m2]"
    using IH by simp
  also have "\<dots> = map (\<lambda>k. if m1 \<le> k \<and> k < m1 + m2 then ?L ! k + p ! m1 * q ! (k - m1) else ?L ! k) [0..<length ?L]"
    by (rule times_inner[OF lt])
  also have "\<dots> = map (\<lambda>k. r ! k + ?s (Suc m1) k) [0..<length r]"
  proof (rule nth_equalityI)
    show "length (map (\<lambda>k. if m1 \<le> k \<and> k < m1 + m2 then ?L ! k + p ! m1 * q ! (k - m1) else ?L ! k) [0..<length ?L])
        = length (map (\<lambda>k. r ! k + ?s (Suc m1) k) [0..<length r])" by simp
  next
    fix k assume "k < length (map (\<lambda>k. if m1 \<le> k \<and> k < m1 + m2 then ?L ! k + p ! m1 * q ! (k - m1) else ?L ! k) [0..<length ?L])"
    then have k: "k < length r" by simp
    have Lk: "?L ! k = r ! k + ?s m1 k" by (rule map_nth_upt[OF k])
    have "map (\<lambda>k. if m1 \<le> k \<and> k < m1 + m2 then ?L ! k + p ! m1 * q ! (k - m1) else ?L ! k) [0..<length ?L] ! k
        = (if m1 \<le> k \<and> k < m1 + m2 then ?L ! k + p ! m1 * q ! (k - m1) else ?L ! k)"
      using k by (intro map_nth_upt) simp
    also have "\<dots> = r ! k + ?s (Suc m1) k"
      unfolding Lk by simp
    also have "\<dots> = map (\<lambda>k. r ! k + ?s (Suc m1) k) [0..<length r] ! k"
      by (rule map_nth_upt[OF k, symmetric])
    finally show "map (\<lambda>k. if m1 \<le> k \<and> k < m1 + m2 then ?L ! k + p ! m1 * q ! (k - m1) else ?L ! k) [0..<length ?L] ! k
        = map (\<lambda>k. r ! k + ?s (Suc m1) k) [0..<length r] ! k" .
  qed
  finally show ?case .
qed

lemma Poly_of_deg_value_coef: "n + 1 < 2 ^ 64 \<Longrightarrow> coef (Poly_of_deg_value n v) = replicate (n + 1) v"
  by (simp add: Poly_of_deg_value_def)

lemma Poly_of_deg_value_deg: "deg (Poly_of_deg_value n v) = n"
  by (simp add: Poly_of_deg_value_def)

lemma times_deg: "deg p2 + deg p1 + 1 < 2 ^ 64 \<Longrightarrow> deg (times p1 p2) = deg p2 + deg p1"
  by (simp add: times_def Let_def Poly_of_deg_value_def)

lemma times_length:
  assumes "deg p2 + deg p1 + 1 < 2 ^ 64"
  shows "length (coef (times p1 p2)) = Suc (deg p2 + deg p1)"
proof -
  have m: "(deg p2 + deg p1) mod 2 ^ 64 = deg p2 + deg p1" using assms by simp
  have "length (coef (times p1 p2)) = length (coef (Poly_of_deg_value (deg p2 + deg p1) (0::'a)))"
    unfolding times_def Let_def m by (simp add: foldl_length del: upt_Suc)
  then show ?thesis using assms by (simp add: Poly_of_deg_value_coef)
qed

lemma times_coef:
  fixes p1 p2 :: "'a::field Poly"
  assumes "deg p2 + deg p1 + 1 < 2 ^ 64"
  shows "coef (times p1 p2) =
     map (\<lambda>k. \<Sum>i<Suc (deg p1). if i \<le> k \<and> k < i + Suc (deg p2)
                                   then coef p1 ! i * coef p2 ! (k - i) else 0)
       [0..<Suc (deg p2 + deg p1)]"
proof -
  let ?r = "replicate (deg p2 + deg p1 + 1) (0::'a)"
  have m: "(deg p2 + deg p1) mod 2 ^ 64 = deg p2 + deg p1" using assms by simp
  have c: "Poly_of_deg_value (deg p2 + deg p1) (0::'a) = \<lparr>coef = ?r, deg = deg p2 + deg p1\<rparr>"
    using assms by (simp add: Poly_of_deg_value_def)
  have l: "Suc (deg p1) + Suc (deg p2) \<le> Suc (length ?r)" by simp
  have "coef (times p1 p2) =
      map (\<lambda>k. ?r ! k + (\<Sum>i<Suc (deg p1). if i \<le> k \<and> k < i + Suc (deg p2)
                                   then coef p1 ! i * coef p2 ! (k - i) else 0))
       [0..<length ?r]"
    using times_outer[OF l, of "coef p1" "coef p2"]
    by (simp only: times_def Let_def m c Poly.simps)
  also have "\<dots> = map (\<lambda>k. \<Sum>i<Suc (deg p1). if i \<le> k \<and> k < i + Suc (deg p2)
                                   then coef p1 ! i * coef p2 ! (k - i) else 0)
       [0..<Suc (deg p2 + deg p1)]"
    by (rule nth_equalityI) (simp_all add: map_nth_upt del: upt_Suc replicate_Suc)
  finally show ?thesis .
qed

lemma conv_reindex:
  fixes b q :: "'a::field list"
  shows "(\<Sum>i<Suc e1. if i \<le> k \<and> k < i + Suc e2 then b ! i * q ! (k - i) else 0)
       = (\<Sum>t<Suc e2. if t \<le> k \<and> k \<le> t + e1 then b ! (k - t) * q ! t else 0)"
proof -
  have "(\<Sum>i<Suc e1. if i \<le> k \<and> k < i + Suc e2 then b ! i * q ! (k - i) else 0)
      = (\<Sum>i\<in>{i \<in> {..<Suc e1}. i \<le> k \<and> k < i + Suc e2}. b ! i * q ! (k - i))"
    by (rule sum.inter_filter[symmetric]) simp
  also have "\<dots> = (\<Sum>t\<in>{t \<in> {..<Suc e2}. t \<le> k \<and> k \<le> t + e1}. b ! (k - t) * q ! t)"
    by (rule sum.reindex_bij_witness[where i = "\<lambda>t. k - t" and j = "\<lambda>i. k - i"]) auto
  also have "\<dots> = (\<Sum>t<Suc e2. if t \<le> k \<and> k \<le> t + e1 then b ! (k - t) * q ! t else 0)"
    by (rule sum.inter_filter) simp
  finally show ?thesis .
qed

subsection \<open>The result of the division\<close>

lemma divide_Inr:
  "deg rhs \<le> deg lhs \<Longrightarrow>
   divide lhs rhs =
     Inr (Poly_of_vector (snd (foldl (div_step (coef rhs) (deg rhs)) (coef lhs, []) [0..<Suc (deg lhs - deg rhs)])),
          update ((Poly_copy lhs)\<lparr>coef := fst (foldl (div_step (coef rhs) (deg rhs)) (coef lhs, []) [0..<Suc (deg lhs - deg rhs)])\<rparr>))"
  by (simp add: divide_def Let_def Poly_copy_def del: upt_Suc)

lemma divide_shape:
  assumes "poly_inv lhs" "deg rhs \<le> deg lhs"
  shows "\<exists>q r. divide lhs rhs = Inr (q, r) \<and> poly_inv q \<and> poly_inv r
           \<and> deg q = deg lhs - deg rhs
           \<and> (if deg rhs = 0 then coef r = [0] else deg r < deg rhs)"
proof -
  define d1 where "d1 = deg lhs"
  define d2 where "d2 = deg rhs"
  define b where "b = coef rhs"
  define n where "n = Suc (d1 - d2)"
  define st where "st = foldl (div_step b d2) (coef lhs, []) [0..<n]"
  define cs where "cs = fst st"
  define qs where "qs = snd st"
  define Q where "Q = Poly_of_vector qs"
  define P0 where "P0 = (Poly_copy lhs)\<lparr>coef := cs\<rparr>"
  define R where "R = update P0"
  have le12: "d2 \<le> d1" using assms(2) by (simp add: d1_def d2_def)
  have l1: "length (coef lhs) = Suc d1"
    using assms(1) by (simp add: poly_inv_length d1_def)
  have inv: "length cs = Suc d1" "length qs = n" "\<forall>k<n. cs ! k = 0"
    using div_loop_shape[OF l1 le12 le_refl] unfolding cs_def qs_def st_def n_def by blast+
  have D: "divide lhs rhs = Inr (Q, R)"
    unfolding Q_def R_def P0_def cs_def qs_def st_def n_def b_def d1_def d2_def
    by (rule divide_Inr[OF assms(2)])
  have cQ: "coef Q = qs" by (simp add: Q_def Poly_of_vector_def)
  have dQ: "deg Q = d1 - d2" using inv(2) by (simp add: Q_def Poly_of_vector_def size_minus_one_def n_def)
  have wQ: "poly_inv Q" by (rule poly_invI) (simp add: cQ dQ inv(2) n_def)
  have dP0: "deg P0 = d1" by (simp add: P0_def Poly_copy_def d1_def)
  have cP0: "coef P0 = cs" by (simp add: P0_def)
  have wP0: "poly_inv P0" by (rule poly_invI) (simp add: cP0 dP0 inv(1))
  define i0 where "i0 = update_scan (\<lambda>c. c = 0) cs d1 0"
  have i0le: "i0 \<le> d1" unfolding i0_def by (rule update_scan_le) simp
  have cR: "coef R = drop i0 cs" and dR: "deg R = d1 - i0"
    unfolding R_def update_def i0_def using trim_shape[of "\<lambda>c. c = 0" P0]
    by (simp_all only: cP0 dP0)
  have wR: "poly_inv R" unfolding R_def update_def by (rule trim_inv[OF wP0])
  have rem_deg: "if d2 = 0 then coef R = [0] else deg R < d2"
  proof (cases "d2 = 0")
    case True
    have "\<forall>k. 0 \<le> k \<and> k < d1 \<longrightarrow> cs ! k = 0" using inv(3) True by (simp add: n_def)
    then have "d1 \<le> i0" unfolding i0_def
      using update_scan_skip[of 0 d1 "\<lambda>c. c = 0" cs d1] by simp
    then have e: "i0 = d1" using i0le by simp
    have "drop d1 cs = [cs ! d1]"
      using inv(1) by (metis Cons_nth_drop_Suc drop_all lessI order_refl)
    moreover have "cs ! d1 = 0" using inv(3) True by (simp add: n_def)
    ultimately show ?thesis using True cR e by simp
  next
    case False
    then have nle: "n \<le> d1" using le12 by (simp add: n_def)
    have "\<forall>k. 0 \<le> k \<and> k < n \<longrightarrow> cs ! k = 0" using inv(3) by simp
    then have "n \<le> i0" unfolding i0_def
      using update_scan_skip[of 0 n "\<lambda>c. c = 0" cs d1] nle by simp
    then show ?thesis using False dR le12 by (simp add: n_def)
  qed
  have dQ': "deg Q = deg lhs - deg rhs" using dQ by (simp add: d1_def d2_def)
  have rem_deg': "if deg rhs = 0 then coef R = [0] else deg R < deg rhs"
    using rem_deg unfolding d2_def .
  show ?thesis using D wQ wR dQ' rem_deg' by blast
qed

lemma divide_props:
  fixes lhs rhs :: "'a::field Poly"
  assumes "poly_inv lhs" "poly_inv rhs" "deg rhs \<le> deg lhs" "hd (coef rhs) \<noteq> 0"
    and "deg lhs < 2 ^ 31"
  shows "\<exists>q r. divide lhs rhs = Inr (q, r) \<and> poly_inv q \<and> poly_inv r
           \<and> deg q = deg lhs - deg rhs
           \<and> poly_eq (add (times rhs q) r) lhs
           \<and> (if deg rhs = 0 then coef r = [0] else deg r < deg rhs)"
proof -
  define d1 where "d1 = deg lhs"
  define d2 where "d2 = deg rhs"
  define b where "b = coef rhs"
  define n where "n = Suc (d1 - d2)"
  define st where "st = foldl (div_step b d2) (coef lhs, []) [0..<n]"
  define cs where "cs = fst st"
  define qs where "qs = snd st"
  define Q where "Q = Poly_of_vector qs"
  define P0 where "P0 = (Poly_copy lhs)\<lparr>coef := cs\<rparr>"
  define R where "R = update P0"
  have le12: "d2 \<le> d1" using assms(3) by (simp add: d1_def d2_def)
  have l1: "length (coef lhs) = Suc d1" and l2: "length b = Suc d2"
    using assms(1,2) by (simp_all add: poly_inv_length d1_def d2_def b_def)
  have b0: "b ! 0 \<noteq> 0" using assms(4) l2 unfolding b_def by (cases "coef rhs") auto
  have inv: "length cs = Suc d1" "length qs = n" "\<forall>k<n. cs ! k = 0"
       "\<forall>k\<le>d1. coef lhs ! k = cs ! k
              + (\<Sum>t<n. if t \<le> k \<and> k \<le> t + d2 then b ! (k - t) * qs ! t else 0)"
    using div_loop_inv[OF l1 le12 b0 le_refl] unfolding cs_def qs_def st_def n_def by blast+
  have D: "divide lhs rhs = Inr (Q, R)"
    unfolding Q_def R_def P0_def cs_def qs_def st_def n_def b_def d1_def d2_def
    by (rule divide_Inr[OF assms(3)])
  have cQ: "coef Q = qs" by (simp add: Q_def Poly_of_vector_def)
  have dQ: "deg Q = d1 - d2" using inv(2) by (simp add: Q_def Poly_of_vector_def size_minus_one_def n_def)
  have wQ: "poly_inv Q" by (rule poly_invI) (simp add: cQ dQ inv(2) n_def)
  have dP0: "deg P0 = d1" by (simp add: P0_def Poly_copy_def d1_def)
  have cP0: "coef P0 = cs" by (simp add: P0_def)
  have wP0: "poly_inv P0" by (rule poly_invI) (simp add: cP0 dP0 inv(1))
  define i0 where "i0 = update_scan (\<lambda>c. c = 0) cs d1 0"
  have i0le: "i0 \<le> d1" unfolding i0_def by (rule update_scan_le) simp
  have cR: "coef R = drop i0 cs" and dR: "deg R = d1 - i0"
    unfolding R_def update_def i0_def using trim_shape[of "\<lambda>c. c = 0" P0]
    by (simp_all only: cP0 dP0)
  have wR: "poly_inv R" unfolding R_def update_def by (rule trim_inv[OF wP0])
  have z: "\<forall>k<i0. cs ! k = 0"
  proof (intro allI impI)
    fix k assume "k < i0"
    then show "cs ! k = 0"
      using update_scan_small[of 0 k "\<lambda>c. c = 0" cs d1] unfolding i0_def by simp
  qed
  have rem_deg: "if d2 = 0 then coef R = [0] else deg R < d2"
  proof (cases "d2 = 0")
    case True
    have "\<forall>k. 0 \<le> k \<and> k < d1 \<longrightarrow> cs ! k = 0" using inv(3) True by (simp add: n_def)
    then have "d1 \<le> i0" unfolding i0_def
      using update_scan_skip[of 0 d1 "\<lambda>c. c = 0" cs d1] by simp
    then have e: "i0 = d1" using i0le by simp
    have "drop d1 cs = [cs ! d1]"
      using inv(1) by (metis Cons_nth_drop_Suc drop_all lessI order_refl)
    moreover have "cs ! d1 = 0" using inv(3) True by (simp add: n_def)
    ultimately show ?thesis using True cR e by simp
  next
    case False
    then have nle: "n \<le> d1" using le12 by (simp add: n_def)
    have "\<forall>k. 0 \<le> k \<and> k < n \<longrightarrow> cs ! k = 0" using inv(3) by simp
    then have "n \<le> i0" unfolding i0_def
      using update_scan_skip[of 0 n "\<lambda>c. c = 0" cs d1] nle by simp
    then show ?thesis using False dR le12 by (simp add: n_def)
  qed
  define P where "P = times rhs Q"
  have small: "deg Q + deg rhs + 1 < 2 ^ 64"
  proof -
    have "deg Q + deg rhs = d1" using le12 by (simp add: dQ d2_def)
    moreover have "d1 < 2 ^ 31" using assms(5) by (simp add: d1_def)
    moreover have "(2::nat) ^ 31 + 1 < 2 ^ 64" by simp
    ultimately show ?thesis by linarith
  qed
  have dP: "deg P = d1" using le12 times_deg[OF small] by (simp add: P_def dQ d2_def)
  have cP: "coef P = map (\<lambda>k. \<Sum>i<Suc d2. if i \<le> k \<and> k < i + Suc (d1 - d2)
                                   then b ! i * qs ! (k - i) else 0) [0..<Suc d1]"
    using times_coef[OF small] le12 unfolding P_def
    by (simp only: dQ cQ le_add_diff_inverse2 d2_def[symmetric] b_def[symmetric])
  have lP: "length (coef P) = Suc (deg P)" by (simp add: cP dP del: upt_Suc)
  have le: "deg R \<le> deg P" by (simp add: dP dR)
  have A: "add P R = plus P R" using le by (simp add: add_def)
  have "coef (plus P R) = coef lhs"
  proof (rule nth_equalityI)
    show "length (coef (plus P R)) = length (coef lhs)"
      using plus_length[OF lP le] dP l1 by simp
  next
    fix k assume "k < length (coef (plus P R))"
    then have k: "k \<le> d1" using plus_length[OF lP le] dP by simp
    then have k': "k \<le> deg P" using dP by simp
    have Pk: "coef P ! k = (\<Sum>t<n. if t \<le> k \<and> k \<le> t + d2 then b ! (k - t) * qs ! t else 0)"
    proof -
      have "coef P ! k = (\<Sum>i<Suc d2. if i \<le> k \<and> k < i + Suc (d1 - d2)
                                   then b ! i * qs ! (k - i) else 0)"
        unfolding cP using k by (intro map_nth_upt) simp
      then show ?thesis unfolding n_def by (simp only: conv_reindex)
    qed
    have Rk: "(if deg P - k < Suc (deg R) then coef P ! k + coef R ! (deg R - (deg P - k)) else coef P ! k)
             = coef P ! k + cs ! k"
    proof (cases "i0 \<le> k")
      case True
      then have c: "deg P - k < Suc (deg R)" using k i0le by (simp add: dP dR)
      have "deg R - (deg P - k) = k - i0" using True k i0le by (simp add: dP dR)
      moreover have "coef R ! (k - i0) = cs ! k"
        using True k inv(1) by (simp add: cR)
      ultimately show ?thesis using c by simp
    next
      case False
      then have c: "\<not> deg P - k < Suc (deg R)" using k i0le by (simp add: dP dR)
      have "cs ! k = 0" using z False by simp
      then show ?thesis using c by simp
    qed
    have "coef (plus P R) ! k = coef P ! k + cs ! k"
      using plus_nth[OF lP le k'] Rk by simp
    then show "coef (plus P R) ! k = coef lhs ! k"
      using Pk inv(4) k by simp
  qed
  then have E: "poly_eq (add (times rhs Q) R) lhs" using A by (simp add: poly_eq_def P_def)
  have dQ': "deg Q = deg lhs - deg rhs" using dQ by (simp add: d1_def d2_def)
  have rem_deg': "if deg rhs = 0 then coef R = [0] else deg R < deg rhs"
    using rem_deg unfolding d2_def .
  show ?thesis using D wQ wR dQ' E rem_deg' by blast
qed

subsection \<open>The class invariant, operation by operation\<close>

lemma inv_default: "poly_inv (Poly_default :: 'a::zero Poly)"
  by (simp add: poly_inv_def Poly_default_def)

lemma inv_copy: "poly_inv p \<Longrightarrow> poly_inv (Poly_copy p)"
  by (simp add: poly_inv_def Poly_copy_def)

lemma inv_of_vector: "cs \<noteq> [] \<Longrightarrow> poly_inv (Poly_of_vector cs)"
  by (simp add: poly_inv_def Poly_of_vector_def size_minus_one_def)

lemma inv_of_init_list: "cs \<noteq> [] \<Longrightarrow> poly_inv (Poly_of_init_list cs)"
  by (simp add: poly_inv_def Poly_of_init_list_def size_minus_one_def)

lemma inv_of_value: "poly_inv (Poly_of_value v)"
  by (simp add: poly_inv_def Poly_of_value_def)

lemma inv_of_deg_value: "n + 1 < 2 ^ 64 \<Longrightarrow> poly_inv (Poly_of_deg_value n v)"
  by (simp add: poly_inv_def Poly_of_deg_value_def)

lemma inv_Clear: "poly_inv (Clear p)"
  by (simp add: poly_inv_def Clear_def)

lemma inv_normalize: "poly_inv p \<Longrightarrow> poly_inv (snd (normalize p))"
  by (simp add: poly_inv_def normalize_def Let_def)

lemma inv_antider: "poly_inv p \<Longrightarrow> poly_inv (antider p)"
  by (rule poly_invI) (simp add: antider_length antider_deg)

lemma inv_der: "poly_inv p \<Longrightarrow> poly_inv (der p)"
proof (rule poly_invI)
  show "length (coef (der p)) = Suc (deg (der p))"
  proof (cases "2 \<le> deg p")
    case True
    then have "length (coef (der p)) = deg p" by (simp add: der_coef_general)
    moreover have "deg (der p) = deg p - 1"
      using True by (simp add: der_def Poly_of_vector_def size_minus_one_def foldl_length)
    ultimately show ?thesis using True by simp
  next
    case False
    then have "deg p = 0 \<or> deg p = 1" by arith
    then show ?thesis by (auto simp add: der_def Poly_of_init_list_def size_minus_one_def)
  qed
qed

lemma inv_update: "poly_inv p \<Longrightarrow> poly_inv (update p)"
  unfolding update_def by (rule trim_inv)

lemma inv_update_real: "poly_inv p \<Longrightarrow> poly_inv (update_real p)"
  unfolding update_real_def by (rule trim_inv)

lemma int_of_size_t_small: "n < 2 ^ 31 \<Longrightarrow> int_of_size_t n = int n"
proof -
  assume a: "n < 2 ^ 31"
  have "int n < int (2 ^ 31)" using a by (simp only: of_nat_less_iff)
  then have b: "int n < 2147483648" by simp
  then have "int n mod 2 ^ 32 = int n" by simp
  then show ?thesis using b by (simp add: int_of_size_t_def)
qed

lemma inv_resize:
  assumes "poly_inv p" "0 \<le> d" "d \<le> int (deg p)" "deg p < 2 ^ 31"
  shows "\<exists>p'. resize p d = Inr p' \<and> poly_inv p' \<and> deg p' = nat d
            \<and> coef p' = drop (deg p - nat d) (coef p)"
proof -
  have l: "length (coef p) = Suc (deg p)" by (rule poly_inv_length[OF assms(1)])
  have t: "int_of_size_t (deg p) = int (deg p)" by (rule int_of_size_t_small[OF assms(4)])
  have "int (deg p) < int (2 ^ 31)" using assms(4) by (simp only: of_nat_less_iff)
  then have b: "int (deg p) < 2147483648" by simp
  have m: "d mod 2 ^ 64 = d" using assms(2,3) b by simp
  have n: "nat (int (deg p) - d) = deg p - nat d" using assms(2) by simp
  have c: "0 \<le> int (deg p) - d \<and> int (deg p) - d < 2 ^ 31 \<and> int (deg p) - d \<le> int (length (coef p))"
    using assms(2,3) b l by simp
  let ?p' = "p\<lparr>deg := nat d, coef := drop (deg p - nat d) (coef p)\<rparr>"
  have "resize p d = Inr ?p'" unfolding resize_def Let_def t m n using c by (simp only: simp_thms if_True)
  moreover have "poly_inv ?p'" by (rule poly_invI) (use assms(2,3) l in simp)
  ultimately show ?thesis by simp
qed

lemma inv_assign: "poly_inv rhs \<Longrightarrow> poly_inv (assign p rhs)"
  by (simp add: poly_inv_def assign_def)

lemma inv_times: "deg p2 + deg p1 + 1 < 2 ^ 64 \<Longrightarrow> poly_inv (times p1 p2)"
  by (rule poly_invI) (simp add: times_length times_deg)

lemma inv_times_scalar: "deg p + 1 < 2 ^ 64 \<Longrightarrow> poly_inv (times_scalar p v)"
  by (rule poly_invI)
     (simp add: times_scalar_def Poly_of_init_list_def Poly_of_deg_value_def size_minus_one_def
        Let_def foldl_length del: upt_Suc)

lemma inv_scalar_times: "deg p + 1 < 2 ^ 64 \<Longrightarrow> poly_inv (scalar_times v p)"
  unfolding scalar_times_def by (rule inv_times_scalar)

lemma inv_divide_scalar: "deg p + 1 < 2 ^ 64 \<Longrightarrow> poly_inv (divide_scalar p v)"
  by (rule poly_invI)
     (simp add: divide_scalar_def Poly_of_deg_value_def Let_def foldl_length del: upt_Suc)

lemma inv_uminus: "poly_inv p \<Longrightarrow> poly_inv (uminus_poly p)"
  by (rule poly_invI)
     (simp add: uminus_poly_def Poly_copy_def Let_def foldl_length poly_inv_length del: upt_Suc)

lemma inv_plus: "poly_inv lhs \<Longrightarrow> poly_inv (plus lhs rhs)"
  by (rule poly_invI)
     (simp add: plus_def Poly_copy_def Let_def foldl_length poly_inv_length del: upt_Suc)

lemma inv_add: "poly_inv p1 \<Longrightarrow> poly_inv p2 \<Longrightarrow> poly_inv (add p1 p2)"
  by (simp add: add_def inv_plus)

lemma inv_sub: "poly_inv p1 \<Longrightarrow> poly_inv p2 \<Longrightarrow> poly_inv (sub p1 p2)"
  by (simp add: sub_def inv_add inv_uminus)

lemma inv_times_assign: "deg rhs + deg p + 1 < 2 ^ 64 \<Longrightarrow> poly_inv (times_assign p rhs)"
  by (simp add: times_assign_def inv_assign inv_times)

lemma inv_times_assign_scalar: "poly_inv p \<Longrightarrow> poly_inv (times_assign_scalar p v)"
  by (rule poly_invI)
     (simp add: times_assign_scalar_def foldl_length poly_inv_length del: upt_Suc)

lemma inv_divide_assign_scalar: "poly_inv p \<Longrightarrow> poly_inv (divide_assign_scalar p v)"
  by (rule poly_invI)
     (simp add: divide_assign_scalar_def foldl_length poly_inv_length del: upt_Suc)

lemma inv_plus_assign_scalar: "poly_inv p \<Longrightarrow> poly_inv (plus_assign_scalar p v)"
  by (rule poly_invI) (simp add: plus_assign_scalar_def poly_inv_length)

lemma inv_plus_assign: "poly_inv p \<Longrightarrow> poly_inv rhs \<Longrightarrow> poly_inv (plus_assign p rhs)"
  by (simp add: plus_assign_def Let_def inv_assign inv_add)

lemma inv_minus_assign: "poly_inv p \<Longrightarrow> poly_inv rhs \<Longrightarrow> poly_inv (minus_assign p rhs)"
  by (simp add: minus_assign_def inv_assign inv_sub)

lemma inv_divide:
  assumes "poly_inv lhs" "divide lhs rhs = Inr (q, r)"
  shows "poly_inv q \<and> poly_inv r"
proof -
  have le: "deg rhs \<le> deg lhs" using assms(2) by (auto simp add: divide_def Let_def split: if_splits)
  define st where "st = foldl (div_step (coef rhs) (deg rhs)) (coef lhs, []) [0..<Suc (deg lhs - deg rhs)]"
  have q: "q = Poly_of_vector (snd st)" and r: "r = update ((Poly_copy lhs)\<lparr>coef := fst st\<rparr>)"
    using assms(2) divide_Inr[OF le] unfolding st_def by simp_all
  have step_len: "\<And>s i. length (fst (div_step (coef rhs) (deg rhs) s i)) = length (fst s)
       \<and> length (snd (div_step (coef rhs) (deg rhs) s i)) = Suc (length (snd s))"
    by (simp add: div_step_def Let_def foldl_length)
  have gen: "\<And>js s. length (fst (foldl (div_step (coef rhs) (deg rhs)) s js)) = length (fst s)
       \<and> length (snd (foldl (div_step (coef rhs) (deg rhs)) s js)) = length (snd s) + length js"
  proof -
    fix js :: "nat list" and s :: "'a list \<times> 'a list"
    show "length (fst (foldl (div_step (coef rhs) (deg rhs)) s js)) = length (fst s)
       \<and> length (snd (foldl (div_step (coef rhs) (deg rhs)) s js)) = length (snd s) + length js"
      by (induction js arbitrary: s) (simp_all add: step_len)
  qed
  have lf: "length (fst st) = Suc (deg lhs)" and ls: "length (snd st) = Suc (deg lhs - deg rhs)"
    unfolding st_def using gen[of "(coef lhs, [])" "[0..<Suc (deg lhs - deg rhs)]"] poly_inv_length[OF assms(1)]
    by (simp_all del: upt_Suc)
  have "poly_inv q" unfolding q by (rule inv_of_vector) (use ls in auto)
  moreover have "poly_inv ((Poly_copy lhs)\<lparr>coef := fst st\<rparr>)"
    by (rule poly_invI) (simp add: lf Poly_copy_def)
  then have "poly_inv r" unfolding r by (rule inv_update)
  ultimately show ?thesis by simp
qed

lemma inv_divide_assign:
  assumes "poly_inv p" "divide_assign p rhs = Inr p'"
  shows "poly_inv p'"
proof -
  obtain q r where d: "divide p rhs = Inr (q, r)" and p': "p' = assign p q"
    using assms(2) by (auto simp add: divide_assign_def split: sum.splits)
  show ?thesis unfolding p' using inv_divide[OF assms(1) d] by (simp add: inv_assign)
qed

lemma update_all_zero:
  assumes "poly_inv p" "\<forall>c\<in>set (coef p). c = 0"
  shows "coef (update p) = [0] \<and> deg (update p) = 0"
proof -
  have l: "length (coef p) = Suc (deg p)" by (rule poly_inv_length[OF assms(1)])
  define i0 where "i0 = update_scan (\<lambda>c. c = 0) (coef p) (deg p) 0"
  have "\<forall>k. 0 \<le> k \<and> k < deg p \<longrightarrow> coef p ! k = 0" using assms(2) l by simp
  then have "deg p \<le> i0" unfolding i0_def
    using update_scan_skip[of 0 "deg p" "\<lambda>c. c = 0" "coef p" "deg p"] by simp
  moreover have "i0 \<le> deg p" unfolding i0_def by (rule update_scan_le) simp
  ultimately have e: "i0 = deg p" by simp
  have "drop (deg p) (coef p) = [coef p ! deg p]"
    using l by (metis Cons_nth_drop_Suc drop_all lessI order_refl)
  moreover have "coef p ! deg p = 0" using assms(2) l by simp
  ultimately show ?thesis
    using e trim_shape[of "\<lambda>c. c = 0" p] unfolding update_def i0_def by simp
qed

lemma update_real_all_small:
  assumes "poly_inv p" "\<forall>c\<in>set (coef p). \<bar>c\<bar> < 1 / of_size_t (10 ^ 8)"
  shows "deg (update_real p) = 0 \<and> coef (update_real p) = [last (coef p)]"
proof -
  have l: "length (coef p) = Suc (deg p)" by (rule poly_inv_length[OF assms(1)])
  define small where "small = (\<lambda>c::'a. \<bar>c\<bar> < 1 / of_size_t (10 ^ 8))"
  define i0 where "i0 = update_scan small (coef p) (deg p) 0"
  have "\<forall>k. 0 \<le> k \<and> k < deg p \<longrightarrow> small (coef p ! k)" using assms(2) l by (simp add: small_def)
  then have "deg p \<le> i0" unfolding i0_def
    using update_scan_skip[of 0 "deg p" small "coef p" "deg p"] by simp
  moreover have "i0 \<le> deg p" unfolding i0_def by (rule update_scan_le) simp
  ultimately have e: "i0 = deg p" by simp
  have "drop (deg p) (coef p) = [coef p ! deg p]"
    using l by (metis Cons_nth_drop_Suc drop_all lessI order_refl)
  moreover have "coef p ! deg p = last (coef p)"
    using l by (metis diff_Suc_1 last_conv_nth length_0_conv nat.distinct(1))
  ultimately show ?thesis
    using e trim_shape[of small p] unfolding update_real_def i0_def small_def by simp
qed

subsection \<open>Normalisation\<close>




text \<open>
  The same in \<open>double\<close>, for a leading coefficient that is finite and not zero: the
  quotient of such a number by itself is \<open>1\<close>.
\<close>

lemma normalize_double:
  assumes "poly_inv p" "hd (coef p) = Finite a" "a \<noteq> 0"
  shows "fst (normalize p) = Finite a
       \<and> deg (snd (normalize p)) = deg p
       \<and> coef (snd (normalize p)) = map (\<lambda>c. c / Finite a) (coef p)
       \<and> hd (coef (snd (normalize p))) = Finite 1"
proof -
  obtain c cs where c: "coef p = c # cs"
    using assms(1) by (cases "coef p") (auto simp: poly_inv_def)
  have ca: "c = Finite a" using assms(2) c by simp
  have one: "rnd64 1 = Finite 1" using rnd64_exact[of 1 0] by simp
  show ?thesis using assms(3) by (simp add: normalize_def Let_def c ca zero_double_def one)
qed

subsection \<open>Derivative of the antiderivative\<close>




subsection \<open>Adding and subtracting the same polynomial\<close>

text \<open>
  Claim C2, as amended.  \<open>operator+\<close> returns a vector as long as the longer operand and
  nothing trims it, so for polynomials \<open>A\<close> and \<open>B\<close> the polynomial \<open>(A + B) - B\<close> has
  \<open>max (deg A) (deg B) + 1\<close> coefficients.  With the operands aligned at the constant
  term, its coefficient is \<open>(a + b) + (-b)\<close> computed in the scalar type where both have
  one, \<open>b + (-b)\<close> where only \<open>B\<close> has one, and \<open>a\<close> where only \<open>A\<close> has one.  When the
  scalar arithmetic is exact, this is the coefficient vector of \<open>A\<close> with
  \<open>deg B - deg A\<close> zeros in front, and \<open>(A + B) - B == A\<close> holds exactly when
  \<open>deg B \<le> deg A\<close>; in floating point it need not hold even then.
\<close>

theorem add_sub_cancel:
  fixes A B :: "'a::{plus,uminus} Poly" and E F :: "'b::field Poly"
  assumes "poly_inv A" "poly_inv B" "poly_inv E" "poly_inv F"
  shows "coef (sub (add A B) B) =
           (if deg B \<le> deg A
            then map (\<lambda>k. if deg A - k \<le> deg B
                          then coef A ! k + coef B ! (deg B - (deg A - k))
                               + - coef B ! (deg B - (deg A - k))
                          else coef A ! k) [0..<Suc (deg A)]
            else map (\<lambda>k. (if deg B - k \<le> deg A
                           then coef B ! k + coef A ! (deg A - (deg B - k))
                           else coef B ! k) + - coef B ! k) [0..<Suc (deg B)])
       \<and> coef (sub (add E F) F) = replicate (deg F - deg E) 0 @ coef E
       \<and> poly_eq (sub (add E F) F) E = (deg F \<le> deg E)"
proof (intro conjI)
  show "coef (sub (add A B) B) =
           (if deg B \<le> deg A
            then map (\<lambda>k. if deg A - k \<le> deg B
                          then coef A ! k + coef B ! (deg B - (deg A - k))
                               + - coef B ! (deg B - (deg A - k))
                          else coef A ! k) [0..<Suc (deg A)]
            else map (\<lambda>k. (if deg B - k \<le> deg A
                           then coef B ! k + coef A ! (deg A - (deg B - k))
                           else coef B ! k) + - coef B ! k) [0..<Suc (deg B)])"
  proof (cases "deg B \<le> deg A")
    case True
    show ?thesis using sub_add_coef_gen(1)[OF assms(1,2) True] True by (simp only: if_True)
  next
    case False
    then have "deg A < deg B" by simp
    from sub_add_coef_gen(2)[OF assms(1,2) this] show ?thesis using False by (simp only: if_False)
  qed
  show c: "coef (sub (add E F) F) = replicate (deg F - deg E) 0 @ coef E"
    by (rule sub_add_coef[OF assms(3,4)])
  show "poly_eq (sub (add E F) F) E = (deg F \<le> deg E)"
  proof (cases "deg F \<le> deg E")
    case True
    then show ?thesis using c by (simp add: poly_eq_def)
  next
    case False
    then have "length (coef (sub (add E F) F)) \<noteq> length (coef E)" unfolding c by simp
    then have "coef (sub (add E F) F) \<noteq> coef E" by auto
    then show ?thesis using False by (simp add: poly_eq_def)
  qed
qed

theorem add_sub_cancel_witness:
  "poly_inv (Poly_of_init_list [Finite 1, Finite 2, Finite 3])
   \<and> poly_inv (Poly_of_init_list [Finite 4, Finite 5])
   \<and> poly_inv (Poly_of_init_list [1, 2, 3 :: real]) \<and> poly_inv (Poly_of_init_list [4, 5 :: real])
   \<and> coef (sub (add (Poly_of_init_list [Finite 1, Finite 2, Finite 3])
                      (Poly_of_init_list [Finite 4, Finite 5]))
                 (Poly_of_init_list [Finite 4, Finite 5]))
       = [Finite 1, Finite 2, Finite 3]
   \<and> poly_eq (sub (add (Poly_of_init_list [1, 2, 3 :: real]) (Poly_of_init_list [4, 5]))
                (Poly_of_init_list [4, 5]))
              (Poly_of_init_list [1, 2, 3])"
proof -
  let ?A = "Poly_of_init_list [Finite 1, Finite 2, Finite 3]"
  let ?B = "Poly_of_init_list [Finite 4, Finite 5]"
  have w: "poly_inv ?A" "poly_inv ?B"
      "poly_inv (Poly_of_init_list [1, 2, 3 :: real])" "poly_inv (Poly_of_init_list [4, 5 :: real])"
    by (simp_all add: poly_inv_def Poly_of_init_list_def size_minus_one_def)
  have d: "deg ?A = 2" "deg ?B = 1" "coef ?A = [Finite 1, Finite 2, Finite 3]"
      "coef ?B = [Finite 4, Finite 5]"
      "deg (Poly_of_init_list [4, 5 :: real]) \<le> deg (Poly_of_init_list [1, 2, 3 :: real])"
    by (simp_all add: Poly_of_init_list_def size_minus_one_def)
  have "map (\<lambda>k. if deg ?A - k \<le> deg ?B
                          then coef ?A ! k + coef ?B ! (deg ?B - (deg ?A - k))
                               + - coef ?B ! (deg ?B - (deg ?A - k))
                          else coef ?A ! k) [0..<Suc (deg ?A)] = [Finite 1, Finite 2, Finite 3]"
    unfolding d by (simp add: upt_conv_Cons rnd64_dyadic)
  then show ?thesis
    using w d(1,2,5) add_sub_cancel[OF w] by simp
qed

text \<open>
  With \<open>A = [1]\<close> and \<open>B = [1, 0]\<close> the sum is \<open>[1, 1]\<close> and the difference is
  \<open>[0, 1]\<close>, which \<open>operator==\<close> tells apart from \<open>[1]\<close>.  With \<open>A = [1]\<close> and
  \<open>B = [2^53]\<close>, of equal degree, the sum \<open>1 + 2^53\<close> is rounded to \<open>2^53\<close> in
  \<open>double\<close> and the difference is \<open>[0]\<close>.
\<close>

theorem add_sub_cancel_counterexample:
  "sub (add (Poly_of_init_list [Finite 1]) (Poly_of_init_list [Finite 1, Finite 0]))
       (Poly_of_init_list [Finite 1, Finite 0])
     = \<lparr>coef = [Finite 0, Finite 1], deg = 1\<rparr>
   \<and> \<not> poly_eq (sub (add (Poly_of_init_list [Finite 1]) (Poly_of_init_list [Finite 1, Finite 0]))
                  (Poly_of_init_list [Finite 1, Finite 0]))
                (Poly_of_init_list [Finite 1])
   \<and> deg (Poly_of_init_list [Finite 9007199254740992]) \<le> deg (Poly_of_init_list [Finite 1])
   \<and> sub (add (Poly_of_init_list [Finite 1]) (Poly_of_init_list [Finite 9007199254740992]))
         (Poly_of_init_list [Finite 9007199254740992])
       = \<lparr>coef = [Finite 0], deg = 0\<rparr>
   \<and> \<not> poly_eq (sub (add (Poly_of_init_list [Finite 1]) (Poly_of_init_list [Finite 9007199254740992]))
                  (Poly_of_init_list [Finite 9007199254740992]))
                (Poly_of_init_list [Finite 1])"
proof -
  have "rnd64 9007199254740993 = Finite (of_int (round_even (9007199254740993 / 2 ^ 1)) * 2 ^ 1)"
    by (rule rnd64_big) simp_all
  also have "round_even (9007199254740993 / 2 ^ 1 :: real) = 4503599627370496"
    by (simp add: round_even_def Let_def)
  finally have r: "rnd64 9007199254740993 = Finite 9007199254740992" by simp
  have a: "sub (add (Poly_of_init_list [Finite 1]) (Poly_of_init_list [Finite 1, Finite 0]))
       (Poly_of_init_list [Finite 1, Finite 0]) = \<lparr>coef = [Finite 0, Finite 1], deg = 1\<rparr>"
    by (simp add: sub_def add_def plus_def uminus_poly_def Poly_copy_def Poly_of_init_list_def
          size_minus_one_def Let_def upt_conv_Cons rnd64_dyadic)
  have b: "sub (add (Poly_of_init_list [Finite 1]) (Poly_of_init_list [Finite 9007199254740992]))
         (Poly_of_init_list [Finite 9007199254740992]) = \<lparr>coef = [Finite 0], deg = 0\<rparr>"
    by (simp add: sub_def add_def plus_def uminus_poly_def Poly_copy_def Poly_of_init_list_def
          size_minus_one_def Let_def upt_conv_Cons rnd64_dyadic r)
  show ?thesis
    unfolding a b by (simp add: poly_eq_def Poly_of_init_list_def size_minus_one_def)
qed

subsection \<open>Quotient and remainder\<close>

text \<open>
  Claim C1, as amended.  For polynomials \<open>A\<close> and \<open>B\<close> with \<open>deg B \<le> deg A\<close> the
  division returns a quotient \<open>q\<close> of degree \<open>deg A - deg B\<close> and a remainder \<open>r\<close>.  The
  remainder's degree is below \<open>deg B\<close> when \<open>B\<close> is not constant; for a constant \<open>B\<close> the
  remainder is the zero polynomial \<open>[0]\<close>, whose stored degree is \<open>0\<close>.  When the scalar
  arithmetic is exact (a field) and the leading coefficient of \<open>B\<close> is not zero,
  \<open>B * q + r == A\<close>; in floating point the two sides can differ by rounding.  In
  \<open>double\<close>, dividing \<open>[1, 0, 0, 0]\<close> by \<open>[1, -1]\<close> gives the quotient \<open>[1, 1, 1]\<close> and
  the remainder \<open>[1]\<close>, and there \<open>B * q + r == A\<close>.  (Degrees are below \<open>2^31\<close>, the
  range of the loop counters.)
\<close>

theorem divide_correct:
  fixes A B :: "'a::{zero,minus,times,inverse} Poly" and E F :: "'b::field Poly"
  assumes "poly_inv A" "poly_inv B" "deg B \<le> deg A"
    and "poly_inv E" "poly_inv F" "deg F \<le> deg E" "hd (coef F) \<noteq> 0" "deg E < 2 ^ 31"
  shows "(\<exists>q r. divide A B = Inr (q, r) \<and> poly_inv q \<and> poly_inv r
           \<and> deg q = deg A - deg B
           \<and> (if deg B = 0 then coef r = [0] else deg r < deg B))
       \<and> (\<exists>q r. divide E F = Inr (q, r) \<and> poly_eq (add (times F q) r) E)
       \<and> divide (Poly_of_init_list [Finite 1, Finite 0, Finite 0, Finite 0])
                  (Poly_of_init_list [Finite 1, Finite (- 1)])
           = Inr (Poly_of_vector [Finite 1, Finite 1, Finite 1], Poly_of_vector [Finite 1])
       \<and> poly_eq (add (times (Poly_of_init_list [Finite 1, Finite (- 1)])
                               (Poly_of_vector [Finite 1, Finite 1, Finite 1]))
                        (Poly_of_vector [Finite 1]))
                   (Poly_of_init_list [Finite 1, Finite 0, Finite 0, Finite 0])"
proof (intro conjI)
  show "\<exists>q r. divide A B = Inr (q, r) \<and> poly_inv q \<and> poly_inv r
           \<and> deg q = deg A - deg B
           \<and> (if deg B = 0 then coef r = [0] else deg r < deg B)"
    by (rule divide_shape[OF assms(1,3)])
  show "\<exists>q r. divide E F = Inr (q, r) \<and> poly_eq (add (times F q) r) E"
    using divide_props[OF assms(4-8)] by blast
  show "divide (Poly_of_init_list [Finite 1, Finite 0, Finite 0, Finite 0])
                  (Poly_of_init_list [Finite 1, Finite (- 1)])
           = Inr (Poly_of_vector [Finite 1, Finite 1, Finite 1], Poly_of_vector [Finite 1])"
    by (simp add: divide_def div_step_def Poly_of_init_list_def Poly_of_vector_def Poly_copy_def
          size_minus_one_def update_def trim_def Let_def update_scan.simps
          upt_rec[of 0] upt_rec[of 1] upt_rec[of 2] upt_rec[of 3]
          zero_double_def minus_double_def rnd64_dyadic)
  show "poly_eq (add (times (Poly_of_init_list [Finite 1, Finite (- 1)])
                               (Poly_of_vector [Finite 1, Finite 1, Finite 1]))
                        (Poly_of_vector [Finite 1]))
                   (Poly_of_init_list [Finite 1, Finite 0, Finite 0, Finite 0])"
  proof -
    have d: "deg (Poly_of_init_list [Finite 1, Finite (- 1)]) = 1"
        "deg (Poly_of_vector [Finite 1, Finite 1, Finite 1]) = 2"
      by (simp_all add: Poly_of_init_list_def Poly_of_vector_def size_minus_one_def)
    have m: "(2 + 1) mod 2 ^ 64 = (3::nat)" "(3 + 1) mod 2 ^ 64 = (4::nat)" by simp_all
    have r: "replicate 4 (0::double) = [Finite 0, Finite 0, Finite 0, Finite 0]"
      by (simp add: eval_nat_numeral zero_double_def)
    have t: "times (Poly_of_init_list [Finite 1, Finite (- 1)])
                   (Poly_of_vector [Finite 1, Finite 1, Finite 1])
        = \<lparr>coef = [Finite 1, Finite 0, Finite 0, Finite (- 1)], deg = 3\<rparr>"
      unfolding times_def Let_def d m Poly_of_deg_value_def
      by (simp add: r Poly_of_init_list_def Poly_of_vector_def upt_conv_Cons eval_nat_numeral
            zero_double_def minus_double_def rnd64_dyadic)
    show ?thesis
      unfolding t
      by (simp add: poly_eq_def add_def plus_def Poly_of_init_list_def Poly_of_vector_def
            Poly_copy_def size_minus_one_def Let_def upt_conv_Cons eval_nat_numeral
            minus_double_def rnd64_dyadic)
  qed
qed

theorem divide_correct_witness:
  "poly_inv (Poly_of_init_list [Finite 2, Finite 3, Finite 1])
   \<and> poly_inv (Poly_of_init_list [Finite 1, Finite 1])
   \<and> deg (Poly_of_init_list [Finite 1, Finite 1]) \<le> deg (Poly_of_init_list [Finite 2, Finite 3, Finite 1])
   \<and> poly_inv (Poly_of_init_list [2, 3, 1 :: real]) \<and> poly_inv (Poly_of_init_list [1, 1 :: real])
   \<and> deg (Poly_of_init_list [1, 1 :: real]) \<le> deg (Poly_of_init_list [2, 3, 1 :: real])
   \<and> hd (coef (Poly_of_init_list [1, 1 :: real])) \<noteq> 0
   \<and> deg (Poly_of_init_list [2, 3, 1 :: real]) < 2 ^ 31
   \<and> (\<exists>q r. divide (Poly_of_init_list [Finite 2, Finite 3, Finite 1])
                    (Poly_of_init_list [Finite 1, Finite 1]) = Inr (q, r)
          \<and> deg q = 1 \<and> deg r < 1)
   \<and> (\<exists>q r. divide (Poly_of_init_list [2, 3, 1 :: real]) (Poly_of_init_list [1, 1]) = Inr (q, r)
          \<and> poly_eq (add (times (Poly_of_init_list [1, 1]) q) r) (Poly_of_init_list [2, 3, 1]))"
proof -
  let ?A = "Poly_of_init_list [Finite 2, Finite 3, Finite 1]"
  let ?B = "Poly_of_init_list [Finite 1, Finite 1]"
  have w: "poly_inv ?A" "poly_inv ?B" "deg ?B \<le> deg ?A"
      "poly_inv (Poly_of_init_list [2, 3, 1 :: real])" "poly_inv (Poly_of_init_list [1, 1 :: real])"
      "deg (Poly_of_init_list [1, 1 :: real]) \<le> deg (Poly_of_init_list [2, 3, 1 :: real])"
      "hd (coef (Poly_of_init_list [1, 1 :: real])) \<noteq> 0"
      "deg (Poly_of_init_list [2, 3, 1 :: real]) < 2 ^ 31"
    by (simp_all add: poly_inv_def Poly_of_init_list_def size_minus_one_def)
  have d: "deg ?A = 2" "deg ?B = 1"
    by (simp_all add: Poly_of_init_list_def size_minus_one_def)
  from divide_correct[OF w]
  obtain q r where "divide ?A ?B = Inr (q, r)" "deg q = deg ?A - deg ?B"
      "if deg ?B = 0 then coef r = [0] else deg r < deg ?B"
    by blast
  then have 1: "\<exists>q r. divide ?A ?B = Inr (q, r) \<and> deg q = 1 \<and> deg r < 1"
    unfolding d by auto
  have 2: "\<exists>q r. divide (Poly_of_init_list [2, 3, 1 :: real]) (Poly_of_init_list [1, 1]) = Inr (q, r)
          \<and> poly_eq (add (times (Poly_of_init_list [1, 1]) q) r) (Poly_of_init_list [2, 3, 1])"
    using divide_correct[OF w] by blast
  show ?thesis using w 1 2 by blast
qed

text \<open>
  Dividing \<open>[1, 2]\<close> by the constant \<open>[2]\<close> leaves the remainder \<open>[0]\<close>, whose degree
  \<open>0\<close> is not below the divisor's degree \<open>0\<close>.  Dividing \<open>[1]\<close> by \<open>[49]\<close> in
  \<open>double\<close> gives the quotient \<open>[1/49]\<close> rounded and the remainder \<open>[0]\<close>; the product
  \<open>49 * q\<close> is rounded to \<open>1 - 2^-53\<close>, so \<open>B * q + r\<close> is not \<open>A\<close>.
\<close>

theorem divide_counterexample:
  "deg (Poly_of_init_list [Finite 2]) \<le> deg (Poly_of_init_list [Finite 1, Finite 2])
   \<and> hd (coef (Poly_of_init_list [Finite 2])) \<noteq> 0
   \<and> divide (Poly_of_init_list [Finite 1, Finite 2]) (Poly_of_init_list [Finite 2])
       = Inr (Poly_of_vector [Finite (1 / 2), Finite 1], \<lparr>coef = [0], deg = 0\<rparr>)
   \<and> \<not> deg \<lparr>coef = [0 :: double], deg = 0\<rparr> < deg (Poly_of_init_list [Finite 2])
   \<and> hd (coef (Poly_of_init_list [Finite 49])) \<noteq> 0
   \<and> divide (Poly_of_init_list [Finite 1]) (Poly_of_init_list [Finite 49])
       = Inr (Poly_of_vector [Finite (5882252574524729 / 288230376151711744)],
              \<lparr>coef = [0], deg = 0\<rparr>)
   \<and> add (times (Poly_of_init_list [Finite 49])
                (Poly_of_vector [Finite (5882252574524729 / 288230376151711744)]))
           \<lparr>coef = [0], deg = 0\<rparr>
       = \<lparr>coef = [Finite (9007199254740991 / 9007199254740992)], deg = 0\<rparr>
   \<and> \<not> poly_eq (add (times (Poly_of_init_list [Finite 49])
                           (Poly_of_vector [Finite (5882252574524729 / 288230376151711744)]))
                      \<lparr>coef = [0], deg = 0\<rparr>)
                (Poly_of_init_list [Finite 1])"
proof -
  have "rnd64 (1 / 49) = Finite (of_int (round_even (1 / 49 * 2 ^ 58)) / 2 ^ 58)"
    by (rule rnd64_normal) simp_all
  also have "round_even (1 / 49 * 2 ^ 58 :: real) = 5882252574524729"
    by (simp add: round_even_def Let_def)
  finally have q: "rnd64 (1 / 49) = Finite (5882252574524729 / 288230376151711744)" by simp
  have "rnd64 (288230376151711721 / 288230376151711744)
      = Finite (of_int (round_even (288230376151711721 / 288230376151711744 * 2 ^ 53)) / 2 ^ 53)"
    by (rule rnd64_normal) simp_all
  also have "round_even (288230376151711721 / 288230376151711744 * 2 ^ 53 :: real) = 9007199254740991"
    by (simp add: round_even_def Let_def)
  finally have t: "rnd64 (288230376151711721 / 288230376151711744)
      = Finite (9007199254740991 / 9007199254740992)" by simp
  have e: "rnd64 (9007199254740991 / 9007199254740992) = Finite (9007199254740991 / 9007199254740992)"
    using rnd64_exact[of 9007199254740991 53] by simp
  have 1: "divide (Poly_of_init_list [Finite 1, Finite 2]) (Poly_of_init_list [Finite 2])
       = Inr (Poly_of_vector [Finite (1 / 2), Finite 1], \<lparr>coef = [0], deg = 0\<rparr>)"
    by (simp add: divide_def div_step_def Poly_of_init_list_def Poly_of_vector_def Poly_copy_def
          size_minus_one_def update_def trim_def Let_def update_scan.simps
          upt_rec[of 0] upt_rec[of 1] upt_rec[of 2]
          zero_double_def minus_double_def rnd64_dyadic)
  have 2: "divide (Poly_of_init_list [Finite 1]) (Poly_of_init_list [Finite 49])
       = Inr (Poly_of_vector [Finite (5882252574524729 / 288230376151711744)],
              \<lparr>coef = [0], deg = 0\<rparr>)"
    by (simp add: divide_def div_step_def Poly_of_init_list_def Poly_of_vector_def Poly_copy_def
          size_minus_one_def update_def trim_def Let_def update_scan.simps
          upt_rec[of 0] upt_rec[of 1] upt_rec[of 2]
          zero_double_def minus_double_def rnd64_dyadic q)
  have 3: "add (times (Poly_of_init_list [Finite 49])
                (Poly_of_vector [Finite (5882252574524729 / 288230376151711744)]))
           \<lparr>coef = [0], deg = 0\<rparr>
       = \<lparr>coef = [Finite (9007199254740991 / 9007199254740992)], deg = 0\<rparr>"
    by (simp add: add_def plus_def times_def Poly_of_deg_value_def Poly_of_init_list_def
          Poly_of_vector_def Poly_copy_def size_minus_one_def Let_def
          upt_rec[of 0] upt_rec[of 1] zero_double_def rnd64_dyadic t e)
  show ?thesis
    unfolding 1 2 3 by (simp add: poly_eq_def Poly_of_init_list_def size_minus_one_def zero_double_def)
qed

text \<open>
  Claim C5.  The division raises its degree error exactly when the dividend's degree is
  below the divisor's; it returns a quotient and a remainder exactly when it is not, and
  it has no other outcome.
\<close>

theorem divide_raises_iff:
  "(divide A B = Inl DegreeError) = (deg A < deg B)
   \<and> ((\<exists>q r. divide A B = Inr (q, r)) = (deg B \<le> deg A))
   \<and> ((\<exists>e. divide A B = Inl e) = (deg A < deg B))"
  by (auto simp add: divide_def Let_def simp del: upt_Suc)

subsection \<open>Preservation of the class invariant\<close>

text \<open>
  Claim C9, as amended.  The invariant (a non-empty coefficient vector whose length is the
  stored degree plus one) holds after the default and value constructors, after the
  (degree, value) constructor for a degree below \<open>2^64 - 1\<close>, and after \<open>Clear\<close>; after
  construction from a non-empty vector or initializer list; and, for polynomials of degree
  below \<open>2^31\<close>, it is preserved by copying, assignment, \<open>normalize\<close>, \<open>der\<close>,
  \<open>antider\<close>, \<open>update\<close>, \<open>update_real\<close>, the arithmetic operators and their assigning
  forms, by a division that returns, and by \<open>resize(d)\<close> for \<open>0 \<le> d \<le> deg\<close>.
  \<open>update\<close> turns an all-zero polynomial into \<open>[0]\<close> of degree \<open>0\<close>, and \<open>update_real\<close>
  turns a polynomial whose coefficients are all below the tolerance into a polynomial of
  degree \<open>0\<close>.
\<close>

theorem invariant_preserved:
  fixes p rhs :: "'a::{zero,one,plus,minus,uminus,times,inverse,abs,ord} Poly"
  assumes "poly_inv p" "poly_inv rhs" "cs \<noteq> []" "deg p < 2 ^ 31" "deg rhs < 2 ^ 31"
    and "n + 1 < 2 ^ 64"
  shows "poly_inv (Poly_default :: 'a Poly) \<and> poly_inv (Poly_copy p)
       \<and> poly_inv (Poly_of_vector cs) \<and> poly_inv (Poly_of_init_list cs)
       \<and> poly_inv (Poly_of_value v) \<and> poly_inv (Poly_of_deg_value n v)
       \<and> poly_inv (Clear p) \<and> poly_inv (snd (normalize p))
       \<and> poly_inv (der p) \<and> poly_inv (antider p)
       \<and> poly_inv (update p) \<and> poly_inv (update_real p)
       \<and> (0 \<le> d \<and> d \<le> int (deg p)
            \<longrightarrow> (\<exists>p'. resize p d = Inr p' \<and> poly_inv p' \<and> deg p' = nat d))
       \<and> poly_inv (add p rhs) \<and> poly_inv (sub p rhs) \<and> poly_inv (uminus_poly p)
       \<and> poly_inv (times p rhs) \<and> poly_inv (times_scalar p v) \<and> poly_inv (scalar_times v p)
       \<and> poly_inv (divide_scalar p v)
       \<and> (\<forall>q r. divide p rhs = Inr (q, r) \<longrightarrow> poly_inv q \<and> poly_inv r)
       \<and> poly_inv (assign p rhs) \<and> poly_inv (plus_assign p rhs) \<and> poly_inv (minus_assign p rhs)
       \<and> poly_inv (times_assign p rhs) \<and> poly_inv (times_assign_scalar p v)
       \<and> poly_inv (plus_assign_scalar p v) \<and> poly_inv (divide_assign_scalar p v)
       \<and> (\<forall>p'. divide_assign p rhs = Inr p' \<longrightarrow> poly_inv p')
       \<and> ((\<forall>c\<in>set (coef p). c = 0) \<longrightarrow> coef (update p) = [0] \<and> deg (update p) = 0)
       \<and> ((\<forall>c\<in>set (coef p). \<bar>c\<bar> < 1 / of_size_t (10 ^ 8)) \<longrightarrow> deg (update_real p) = 0)"
proof -
  have b: "deg rhs + deg p + 1 < 2 ^ 64" "deg p + 1 < 2 ^ 64"
  proof -
    have "(2::nat) ^ 31 + 2 ^ 31 + 1 < 2 ^ 64" by simp
    then show "deg rhs + deg p + 1 < 2 ^ 64" using assms(4,5) by linarith
    then show "deg p + 1 < 2 ^ 64" by simp
  qed
  have c: "poly_inv (Poly_default :: 'a Poly)" "poly_inv (Poly_copy p)"
      "poly_inv (Poly_of_vector cs)" "poly_inv (Poly_of_init_list cs)"
      "poly_inv (Poly_of_value v)" "poly_inv (Poly_of_deg_value n v)"
    using assms by (simp_all add: inv_default inv_copy inv_of_vector inv_of_init_list
        inv_of_value inv_of_deg_value)
  have m: "poly_inv (Clear p)" "poly_inv (snd (normalize p))" "poly_inv (der p)"
      "poly_inv (antider p)" "poly_inv (update p)" "poly_inv (update_real p)"
    using assms(1) by (simp_all add: inv_Clear inv_normalize inv_der inv_antider inv_update
        inv_update_real)
  have r: "0 \<le> d \<and> d \<le> int (deg p)
            \<longrightarrow> (\<exists>p'. resize p d = Inr p' \<and> poly_inv p' \<and> deg p' = nat d)"
    using inv_resize[OF assms(1) _ _ assms(4), of d] by blast
  have a: "poly_inv (add p rhs)" "poly_inv (sub p rhs)" "poly_inv (uminus_poly p)"
      "poly_inv (times p rhs)" "poly_inv (times_scalar p v)" "poly_inv (scalar_times v p)"
      "poly_inv (divide_scalar p v)"
    using assms(1,2) b by (simp_all add: inv_add inv_sub inv_uminus inv_times inv_times_scalar
        inv_scalar_times inv_divide_scalar)
  have dv: "\<forall>q r. divide p rhs = Inr (q, r) \<longrightarrow> poly_inv q \<and> poly_inv r"
    using inv_divide[OF assms(1)] by blast
  have s: "poly_inv (assign p rhs)" "poly_inv (plus_assign p rhs)" "poly_inv (minus_assign p rhs)"
      "poly_inv (times_assign p rhs)" "poly_inv (times_assign_scalar p v)"
      "poly_inv (plus_assign_scalar p v)" "poly_inv (divide_assign_scalar p v)"
    using assms(1,2) b by (simp_all add: inv_assign inv_plus_assign inv_minus_assign inv_times_assign
        inv_times_assign_scalar inv_plus_assign_scalar inv_divide_assign_scalar)
  have da: "\<forall>p'. divide_assign p rhs = Inr p' \<longrightarrow> poly_inv p'"
    using inv_divide_assign[OF assms(1)] by blast
  have z: "(\<forall>c\<in>set (coef p). c = 0) \<longrightarrow> coef (update p) = [0] \<and> deg (update p) = 0"
    using update_all_zero[OF assms(1)] by blast
  have zr: "(\<forall>c\<in>set (coef p). \<bar>c\<bar> < 1 / of_size_t (10 ^ 8)) \<longrightarrow> deg (update_real p) = 0"
    using update_real_all_small[OF assms(1)] by blast
  show ?thesis
    using c m r a dv s da z zr by (intro conjI)
qed

theorem invariant_preserved_witness:
  "poly_inv (Poly_of_init_list [Finite 0, Finite 0, Finite 0])
   \<and> poly_inv (Poly_of_init_list [Finite 1, Finite 1])
   \<and> [Finite 5, Finite 6] \<noteq> []
   \<and> deg (Poly_of_init_list [Finite 0, Finite 0, Finite 0]) < 2 ^ 31
   \<and> deg (Poly_of_init_list [Finite 1, Finite 1]) < 2 ^ 31
   \<and> (7 :: nat) + 1 < 2 ^ 64
   \<and> (0 :: int) \<le> 1 \<and> 1 \<le> int (deg (Poly_of_init_list [Finite 0, Finite 0, Finite 0]))
   \<and> set (coef (Poly_of_init_list [Finite 0, Finite 0, Finite 0])) = {0}
   \<and> \<bar>0 :: double\<bar> < 1 / of_size_t (10 ^ 8)
   \<and> poly_inv (Poly_of_vector [Finite 5, Finite 6])
   \<and> poly_inv (Poly_of_deg_value 7 (Finite 0))
   \<and> poly_inv (der (Poly_of_init_list [Finite 0, Finite 0, Finite 0]))
   \<and> poly_inv (times (Poly_of_init_list [Finite 0, Finite 0, Finite 0])
                      (Poly_of_init_list [Finite 1, Finite 1]))
   \<and> (\<exists>p'. resize (Poly_of_init_list [Finite 0, Finite 0, Finite 0]) 1 = Inr p'
          \<and> poly_inv p' \<and> deg p' = 1)
   \<and> (\<exists>q r. divide (Poly_of_init_list [Finite 0, Finite 0, Finite 0])
                    (Poly_of_init_list [Finite 1, Finite 1]) = Inr (q, r)
          \<and> poly_inv q \<and> poly_inv r)
   \<and> (\<exists>p'. divide_assign (Poly_of_init_list [Finite 0, Finite 0, Finite 0])
                   (Poly_of_init_list [Finite 1, Finite 1]) = Inr p'
          \<and> poly_inv p')
   \<and> coef (update (Poly_of_init_list [Finite 0, Finite 0, Finite 0])) = [0]
   \<and> deg (update (Poly_of_init_list [Finite 0, Finite 0, Finite 0])) = 0
   \<and> deg (update_real (Poly_of_init_list [Finite 0, Finite 0, Finite 0])) = 0"
proof -
  let ?Z = "Poly_of_init_list [Finite 0, Finite 0, Finite 0]"
  let ?B = "Poly_of_init_list [Finite 1, Finite 1]"
  have w: "poly_inv ?Z" "poly_inv ?B" "[Finite 5, Finite 6] \<noteq> []"
      "deg ?Z < 2 ^ 31" "deg ?B < 2 ^ 31" "(7 :: nat) + 1 < 2 ^ 64"
    by (simp_all add: poly_inv_def Poly_of_init_list_def size_minus_one_def)
  have h: "(0 :: int) \<le> 1 \<and> 1 \<le> int (deg ?Z)"
    by (simp add: Poly_of_init_list_def size_minus_one_def)
  have e: "set (coef ?Z) = {0}" by (simp add: Poly_of_init_list_def zero_double_def)
  have z: "\<forall>c\<in>set (coef ?Z). c = 0" unfolding e by simp
  have sm: "\<bar>0 :: double\<bar> < 1 / of_size_t (10 ^ 8)"
    by (simp add: update_real_tolerance_double lit_8 zero_double_def)
  have zr: "\<forall>c\<in>set (coef ?Z). \<bar>c\<bar> < 1 / of_size_t (10 ^ 8)" unfolding e using sm by simp
  have t: "nat 1 = 1" by simp
  have "deg ?B \<le> deg ?Z" by (simp add: Poly_of_init_list_def size_minus_one_def)
  from divide_Inr[OF this]
  obtain q r where d: "divide ?Z ?B = Inr (q, r)" by blast
  then have da: "divide_assign ?Z ?B = Inr (assign ?Z q)" by (simp add: divide_assign_def)
  show ?thesis
    using w h z zr sm e d da invariant_preserved[OF w, of "Finite 0" 1] unfolding t by blast
qed

text \<open>
  Four inputs at which the claim, as stated, fails: the polynomial constructed from the
  empty vector has no coefficient (and the wrapped degree \<open>2^64 - 1\<close>); so has the one
  constructed from the degree \<open>2^64 - 1\<close> (the \<open>size_t\<close> that \<open>-1\<close> converts to) and a
  value; \<open>resize(-1)\<close> empties a well-formed polynomial; and \<open>update_real\<close> leaves
  \<open>[1e-9, 1e-9]\<close>, both of whose coefficients are below the tolerance, as \<open>[1e-9]\<close>
  rather than \<open>[0]\<close>.
\<close>

theorem invariant_counterexample:
  "coef (Poly_of_vector ([] :: double list)) = []
   \<and> deg (Poly_of_vector ([] :: double list)) = 2 ^ 64 - 1
   \<and> \<not> poly_inv (Poly_of_vector ([] :: double list))
   \<and> Poly_of_deg_value (2 ^ 64 - 1) (Finite 0) = \<lparr>coef = [], deg = 2 ^ 64 - 1\<rparr>
   \<and> \<not> poly_inv (Poly_of_deg_value (2 ^ 64 - 1) (Finite 0))
   \<and> poly_inv (Poly_of_init_list [Finite 1, Finite 2])
   \<and> resize (Poly_of_init_list [Finite 1, Finite 2]) (- 1) = Inr \<lparr>coef = [], deg = 2 ^ 64 - 1\<rparr>
   \<and> \<bar>lit (1 / 10 ^ 9)\<bar> < lit (1 / 10 ^ 8)
   \<and> update_real (Poly_of_init_list [lit (1 / 10 ^ 9), lit (1 / 10 ^ 9)])
       = \<lparr>coef = [lit (1 / 10 ^ 9)], deg = 0\<rparr>
   \<and> lit (1 / 10 ^ 9) \<noteq> 0"
proof -
  have t: "int_of_size_t (Suc 0) = 1" by (simp add: int_of_size_t_def)
  have s: "\<bar>lit (1 / 10 ^ 9)\<bar> < lit (1 / 10 ^ 8)" by (simp add: lit_8 lit_9)
  have s': "\<bar>lit (1 / 10 ^ 9)\<bar> < 1 / of_size_t 100000000"
    using s by (simp add: update_real_tolerance_double)
  have n: "lit (1 / 10 ^ 9) \<noteq> 0" by (simp add: lit_9 zero_double_def)
  have u: "update_real (Poly_of_init_list [lit (1 / 10 ^ 9), lit (1 / 10 ^ 9)])
       = \<lparr>coef = [lit (1 / 10 ^ 9)], deg = 0\<rparr>"
    using s' by (simp add: Poly_of_init_list_def size_minus_one_def update_real_def trim_def
          update_scan.simps)
  show ?thesis
    unfolding u using s n
    by (simp add: poly_inv_def Poly_of_vector_def Poly_of_init_list_def Poly_of_deg_value_def
          size_minus_one_def resize_def t Let_def)
qed

section \<open>Properties of the root finder\<close>

lemma solve_quadratic_sum: "sum_list (map fst (solve_quadratic cm p)) = 2"
  by (simp add: solve_quadratic_def Let_def)

lemma solve_cubic_sum:
  assumes "deg p = 3"
  shows "\<exists>res. solve_cubic cm p = Inr res \<and> sum_list (map fst res) = 3"
proof -
  define P :: "error + roots \<Rightarrow> bool"
    where "P y \<longleftrightarrow> (\<exists>res. y = Inr res \<and> sum_list (map fst res) = 3)" for y
  have ifI: "\<And>c a b. P a \<Longrightarrow> P b \<Longrightarrow> P (if c then a else b)" by simp
  have b1: "\<And>x. P (Inr [(3, x)])" and b2: "\<And>x y. P (Inr [(1, x), (2, y)])"
    and b3: "\<And>x y. P (Inr [(2, x), (1, y)])" and b4: "\<And>x y z. P (Inr [(1, x), (1, y), (1, z)])"
    by (simp_all add: P_def)
  have b5: "P (case divide p (Poly_of_init_list [Finite 1, - root]) of
                    Inl e \<Rightarrow> Inl e
                  | Inr qr \<Rightarrow> Inr (solve_quadratic cm (fst qr) @ [(1, cplx root)]))" for root
  proof -
    have "\<exists>q r. divide p (Poly_of_init_list [Finite 1, - root]) = Inr (q, r)"
    proof -
      have "deg (Poly_of_init_list [Finite 1, - root]) \<le> deg p"
        using assms by (simp add: Poly_of_init_list_def size_minus_one_def)
      from divide_Inr[OF this] show ?thesis by blast
    qed
    then show ?thesis by (auto simp add: P_def solve_quadratic_sum)
  qed
  have "P (solve_cubic cm p)"
    unfolding solve_cubic_def Let_def by (intro ifI b1 b2 b3 b4 b5)
  then show ?thesis by (simp add: P_def)
qed

lemma solve_with_eigenvalues_sum:
  assumes "\<And>n m. length (eigenvalues n m) = n"
  shows "sum_list (map fst (solve_with_eigenvalues eigenvalues p)) = int (deg p)"
proof -
  have d: "deg (if coef p ! 0 \<noteq> Finite 1 then snd (normalize p) else p) = deg p"
    by (simp add: normalize_def Let_def)
  have s: "sum_list (map fst (map (\<lambda>i. (1 :: int, f i)) [0..<n])) = int n" for n and f :: "nat \<Rightarrow> cdouble"
    by (induction n) simp_all
  show ?thesis
    unfolding solve_with_eigenvalues_def Let_def s assms d ..
qed

lemma laguerre_scan_ok:
  assumes "0 \<le> k" "k \<le> dg" "int (length cs) = dg + 1"
      "\<exists>j. j \<le> nat (dg - k) \<and> \<not> \<bar>cs ! j\<bar> < lit (1 / 10 ^ 16)"
  shows "\<exists>k'. laguerre_scan cs dg k = Inr k' \<and> k \<le> k' \<and> k' \<le> dg"
  using assms
proof (induction cs dg k rule: laguerre_scan.induct)
  case (1 cs dg k)
  have inb: "\<not> (dg - k < 0 \<or> int (length cs) \<le> dg - k)" using "1.prems" by simp
  show ?case
  proof (cases "\<bar>cs ! nat (dg - k)\<bar> < lit (1 / 10 ^ 16)")
    case True
    obtain j where j: "j \<le> nat (dg - k)" "\<not> \<bar>cs ! j\<bar> < lit (1 / 10 ^ 16)" using "1.prems"(4) by blast
    have "j \<noteq> nat (dg - k)" using True j(2) by auto
    then have j': "j \<le> nat (dg - (k + 1))" using j(1) by simp
    have lt: "k + 1 \<le> dg" using j(1) \<open>j \<noteq> nat (dg - k)\<close> by simp
    have "\<exists>k'. laguerre_scan cs dg (k + 1) = Inr k' \<and> k + 1 \<le> k' \<and> k' \<le> dg"
      using "1.IH"[OF inb True _ lt "1.prems"(3)] j' j(2) "1.prems"(1) by auto
    moreover have "laguerre_scan cs dg k = laguerre_scan cs dg (k + 1)"
      using inb True by (subst laguerre_scan.simps) simp
    ultimately show ?thesis by auto
  next
    case False
    have "laguerre_scan cs dg k = Inr k"
      using inb False by (subst laguerre_scan.simps) simp
    then show ?thesis using "1.prems" by simp
  qed
qed

lemma laguerre_scan_small:
  assumes "\<forall>j. j \<le> nat (dg - k) \<longrightarrow> \<bar>cs ! j\<bar> < lit (1 / 10 ^ 16)"
  shows "laguerre_scan cs dg k = Inl OutOfBounds"
  using assms
proof (induction cs dg k rule: laguerre_scan.induct)
  case (1 cs dg k)
  show ?case
  proof (cases "dg - k < 0 \<or> int (length cs) \<le> dg - k")
    case True
    then show ?thesis by (subst laguerre_scan.simps) simp
  next
    case False
    have s: "\<bar>cs ! nat (dg - k)\<bar> < lit (1 / 10 ^ 16)" using "1.prems" by simp
    have "\<forall>j. j \<le> nat (dg - (k + 1)) \<longrightarrow> \<bar>cs ! j\<bar> < lit (1 / 10 ^ 16)"
      using "1.prems" by simp
    then have "laguerre_scan cs dg (k + 1) = Inl OutOfBounds" by (rule "1.IH"[OF False s])
    moreover have "laguerre_scan cs dg k = laguerre_scan cs dg (k + 1)"
      using False s by (subst laguerre_scan.simps) simp
    ultimately show ?thesis by simp
  qed
qed

lemma deflate_step:
  fixes p :: "cdouble Poly"
  assumes "poly_inv p" "1 \<le> deg p"
  shows "\<exists>p'. divide_assign p ((Poly_of_init_list [1, 0])\<lparr>coef := [1, 0][1 := - x]\<rparr>) = Inr p'
            \<and> poly_inv p' \<and> deg p' = deg p - 1"
proof -
  let ?X = "(Poly_of_init_list [1, 0 :: cdouble])\<lparr>coef := [1, 0][1 := - x]\<rparr>"
  have X: "deg ?X = 1"
    by (simp add: Poly_of_init_list_def size_minus_one_def)
  have le: "deg ?X \<le> deg p" using assms(2) X by simp
  obtain q r where d: "divide p ?X = Inr (q, r)" "poly_inv q" "deg q = deg p - deg ?X"
    using divide_shape[OF assms(1) le] by blast
  have "divide_assign p ?X = Inr (assign p q)" using d(1) by (simp add: divide_assign_def)
  moreover have "poly_inv (assign p q)" using d(2) by (rule inv_assign)
  moreover have "deg (assign p q) = deg p - 1" using d(3) X by (simp add: assign_def)
  ultimately show ?thesis by blast
qed

lemma laguerre_outer_roots:
  assumes "poly_inv p" "int (deg p) = dg - d"
  shows "\<exists>rest. laguerre_outer dg d p res = Inr (res @ rest)
           \<and> length rest = deg p \<and> (\<forall>r\<in>set rest. fst r = 1)"
  using assms
proof (induction "deg p" arbitrary: p d res)
  case 0
  then have "\<not> d < dg" by simp
  then have "laguerre_outer dg d p res = Inr res" by (subst laguerre_outer.simps) simp
  then show ?case using 0 by simp
next
  case (Suc n)
  then have lt: "d < dg" by simp
  define x where "x = snd (laguerre_iter p (der p) (der (der p)) dg 0 (cplx (lower_bound p)))"
  obtain p' where p': "divide_assign p ((Poly_of_init_list [1, 0])\<lparr>coef := [1, 0][1 := - x]\<rparr>) = Inr p'"
      "poly_inv p'" "deg p' = deg p - 1"
    using deflate_step[OF Suc.prems(1), of x] Suc.hyps(2) by auto
  have u: "laguerre_outer dg d p res = laguerre_outer dg (d + 1) p' (res @ [(1, x)])"
    using lt p'(1) by (subst laguerre_outer.simps) (simp add: Let_def x_def)
  have n: "n = deg p'" using p'(3) Suc.hyps(2) by simp
  have e: "int (deg p') = dg - (d + 1)" using p'(3) Suc.prems(2) Suc.hyps(2) by simp
  obtain rest where rest: "laguerre_outer dg (d + 1) p' (res @ [(1, x)]) = Inr ((res @ [(1, x)]) @ rest)"
      "length rest = deg p'" "\<forall>r\<in>set rest. fst r = 1"
    using Suc.hyps(1)[OF n p'(2) e, of "res @ [(1, x)]"] by blast
  have "laguerre_outer dg d p res = Inr (res @ ((1, x) # rest))" using u rest(1) by simp
  moreover have "length ((1, x) # rest) = deg p" using rest(2) p'(3) Suc.hyps(2) by simp
  moreover have "\<forall>r\<in>set ((1 :: int, x) # rest). fst r = 1" using rest(3) by simp
  ultimately show ?case by blast
qed

lemma sum_list_ones:
  fixes rest :: roots
  assumes "\<forall>r\<in>set rest. fst r = 1"
  shows "sum_list (map fst rest) = int (length rest)"
  using assms by (induction rest) simp_all

lemma solve_laguerre_sum:
  assumes "poly_inv poly" "deg poly < 2 ^ 31"
    and "\<exists>c\<in>set (coef poly). \<not> \<bar>c\<bar> < lit (1 / 10 ^ 16)"
  shows "\<exists>res. solve_laguerre poly = Inr res \<and> sum_list (map fst res) = int (deg poly)"
proof -
  have l: "length (coef poly) = Suc (deg poly)" by (rule poly_inv_length[OF assms(1)])
  have dgp: "int_of_size_t (deg poly) = int (deg poly)" by (rule int_of_size_t_small[OF assms(2)])
  obtain j where j: "j < length (coef poly)" "\<not> \<bar>coef poly ! j\<bar> < lit (1 / 10 ^ 16)"
    using assms(3) by (auto simp add: in_set_conv_nth)
  have "j \<le> nat (int (deg poly) - 0)" using j(1) l by simp
  then have ex: "\<exists>j. j \<le> nat (int (deg poly) - 0) \<and> \<not> \<bar>coef poly ! j\<bar> < lit (1 / 10 ^ 16)"
    using j(2) by blast
  obtain k where k: "laguerre_scan (coef poly) (int (deg poly)) 0 = Inr k" "0 \<le> k" "k \<le> int (deg poly)"
    using laguerre_scan_ok[of 0 "int (deg poly)" "coef poly", OF _ _ _ ex] l by auto
  define n where "n = nat (int (deg poly) - k)"
  have nle: "n \<le> deg poly" using k(2) by (simp add: n_def)
  have n31: "n < 2 ^ 31" using nle assms(2) by simp
  have "(2::nat) ^ 31 + 1 < 2 ^ 64" by simp
  then have n64: "n + 1 < 2 ^ 64" using n31 by linarith
  have dn: "int_of_size_t n = int n" by (rule int_of_size_t_small[OF n31])
  define p where "p = (Poly_of_deg_value n (0 :: cdouble))\<lparr>coef :=
      foldl (\<lambda>c i. c[i := cplx (coef poly ! i)]) (coef (Poly_of_deg_value n 0)) [0..<Suc n]\<rparr>"
  define res0 :: roots where "res0 = (if k \<noteq> 0 then [(k, 0)] else [])"
  have dp: "deg p = n" by (simp add: p_def Poly_of_deg_value_def)
  have ip: "poly_inv p"
    by (rule poly_invI) (simp add: p_def Poly_of_deg_value_coef[OF n64] Poly_of_deg_value_deg foldl_length del: upt_Suc)
  have n': "nat (int (deg poly) - k) = n" by (simp add: n_def)
  have S: "solve_laguerre poly = laguerre_outer (int n) 0 p res0"
    by (simp only: solve_laguerre_def Let_def dgp k(1) sum.case n' Poly_of_deg_value_deg dn nat_int
          p_def res0_def)
  obtain rest where rest: "laguerre_outer (int n) 0 p res0 = Inr (res0 @ rest)"
      "length rest = deg p" "\<forall>r\<in>set rest. fst r = 1"
    using laguerre_outer_roots[OF ip, of "int n" 0 res0] dp by auto
  have "sum_list (map fst (res0 @ rest)) = k + int n"
    using sum_list_ones[OF rest(3)] rest(2) dp by (simp add: res0_def)
  also have "\<dots> = int (deg poly)" using k(2,3) by (simp add: n_def)
  finally show ?thesis using S rest(1) by simp
qed

lemma solve_laguerre_small:
  assumes "poly_inv poly" "deg poly < 2 ^ 31"
    and "\<forall>c\<in>set (coef poly). \<bar>c\<bar> < lit (1 / 10 ^ 16)"
  shows "solve_laguerre poly = Inl OutOfBounds"
proof -
  have l: "length (coef poly) = Suc (deg poly)" by (rule poly_inv_length[OF assms(1)])
  have dgp: "int_of_size_t (deg poly) = int (deg poly)" by (rule int_of_size_t_small[OF assms(2)])
  have "\<forall>j. j \<le> nat (int (deg poly) - 0) \<longrightarrow> \<bar>coef poly ! j\<bar> < lit (1 / 10 ^ 16)"
    using assms(3) l by simp
  then have "laguerre_scan (coef poly) (int (deg poly)) 0 = Inl OutOfBounds"
    by (rule laguerre_scan_small)
  then show ?thesis by (simp add: solve_laguerre_def dgp)
qed

lemma solve_sum:
  assumes "poly_inv P" "1 \<le> deg P" "deg P < 2 ^ 31"
    and "\<And>n m. length (eigenvalues n m) = n"
    and "type \<noteq> 1 \<and> 4 \<le> deg P \<longrightarrow> (\<exists>c\<in>set (coef P). \<not> \<bar>c\<bar> < lit (1 / 10 ^ 16))"
  shows "\<exists>res. solve cm eigenvalues P type = Inr res \<and> sum_list (map fst res) = int (deg P)"
proof -
  consider "deg P = 1" | "deg P = 2" | "deg P = 3" | "4 \<le> deg P" "type = 1" | "4 \<le> deg P" "type \<noteq> 1"
    using assms(2) by linarith
  then show ?thesis
  proof cases
    case 1
    then show ?thesis by (simp add: solve_def)
  next
    case 2
    then show ?thesis by (simp add: solve_def solve_quadratic_sum)
  next
    case 3
    then show ?thesis using solve_cubic_sum[OF 3] by (simp add: solve_def)
  next
    case 4
    then show ?thesis
      using solve_with_eigenvalues_sum[of eigenvalues P, OF assms(4)]
      by (simp add: solve_def solve_numerical_def)
  next
    case 5
    then show ?thesis
      using solve_laguerre_sum[OF assms(1,3)] assms(5)
      by (simp add: solve_def solve_numerical_def)
  qed
qed

lemma laguerre_cap_step:
  assumes "poly_inv p" "int (deg p) = dg - d" "d < dg"
    and "laguerre_iter p (der p) (der (der p)) dg 0 (cplx (lower_bound p)) = (1000, x)"
  shows "\<exists>rest. laguerre_outer dg d p res = Inr (res @ (1, x) # rest)"
proof -
  have dp: "1 \<le> deg p" using assms(2,3) by simp
  obtain p' where p': "divide_assign p ((Poly_of_init_list [1, 0])\<lparr>coef := [1, 0][1 := - x]\<rparr>) = Inr p'"
      "poly_inv p'" "deg p' = deg p - 1"
    using deflate_step[OF assms(1) dp, of x] by auto
  have u: "laguerre_outer dg d p res = laguerre_outer dg (d + 1) p' (res @ [(1, x)])"
    using assms(3) p'(1) by (subst laguerre_outer.simps) (simp add: Let_def assms(4))
  have e: "int (deg p') = dg - (d + 1)" using p'(3) assms(2) dp by simp
  obtain rest where "laguerre_outer dg (d + 1) p' (res @ [(1, x)]) = Inr ((res @ [(1, x)]) @ rest)"
    using laguerre_outer_roots[OF p'(2) e, of "res @ [(1, x)]"] by blast
  then show ?thesis using u by simp
qed

lemma cabs_nan: "cabs (Cx NaN NaN) = NaN"
  by simp

lemma laguerre_nan_run:
  fixes P0 :: "cdouble Poly"
  defines "P0 \<equiv> \<lparr>coef = [Cx (Finite 1) (Finite 0), Cx (Finite (- 3 / 4)) (Finite 0),
                           Cx (Finite (3 / 16)) (Finite 0), Cx (Finite 3) (Finite 0)], deg = 3\<rparr>"
  shows "poly_inv P0"
    and "lower_bound P0 = Finite (1 / 4)"
    and "eval P0 (Cx (Finite (1 / 4)) (Finite 0)) = Cx (Finite (193 / 64)) (Finite 0)"
    and "eval (der P0) (Cx (Finite (1 / 4)) (Finite 0)) = Cx (Finite 0) (Finite 0)"
    and "eval (der (der P0)) (Cx (Finite (1 / 4)) (Finite 0)) = Cx (Finite 0) (Finite 0)"
    and "laguerre_iter P0 (der P0) (der (der P0)) 3 0 (Cx (Finite (1 / 4)) (Finite 0))
           = (1000, Cx NaN NaN)"
proof -
  define P1 :: "cdouble Poly" where
    "P1 = \<lparr>coef = [Cx (Finite 3) (Finite 0), Cx (Finite (- 3 / 2)) (Finite 0),
                   Cx (Finite (3 / 16)) (Finite 0)], deg = 2\<rparr>"
  define P2 :: "cdouble Poly" where
    "P2 = \<lparr>coef = [Cx (Finite 6) (Finite 0), Cx (Finite (- 3 / 2)) (Finite 0)], deg = 1\<rparr>"
  have sz: "(of_size_t (Suc (Suc (Suc 0))) :: cdouble) = Cx (Finite 3) (Finite 0)"
      "(of_size_t (Suc (Suc 0)) :: cdouble) = Cx (Finite 2) (Finite 0)"
      "(of_size_t (Suc 0) :: cdouble) = Cx (Finite 1) (Finite 0)"
    using of_size_t_cdouble[of "Suc (Suc (Suc 0))"] of_size_t_cdouble[of "Suc (Suc 0)"]
      of_size_t_cdouble[of "Suc 0"]
    by simp_all
  have der_P0: "der P0 = P1"
    by (simp add: der_def P0_def P1_def Poly_of_vector_def size_minus_one_def upt_conv_Cons
          eval_nat_numeral sz zero_cdouble_def zero_double_def minus_double_def rnd64_dyadic
          del: of_size_t.simps)
  have der_P1: "der P1 = P2"
    by (simp add: der_def P1_def P2_def Poly_of_vector_def size_minus_one_def upt_conv_Cons
          eval_nat_numeral sz zero_cdouble_def zero_double_def minus_double_def rnd64_dyadic
          del: of_size_t.simps)
  show "poly_inv P0" by (simp add: poly_inv_def P0_def)
  show "lower_bound P0 = Finite (1 / 4)"
    by (simp add: lower_bound_def upper_bound_def P0_def upt_conv_Cons eval_nat_numeral
          zero_double_def minus_double_def rnd64_dyadic cabs_real_axis del: cabs.simps(1))
  have ev: "eval P0 (Cx (Finite (1 / 4)) (Finite 0)) = Cx (Finite (193 / 64)) (Finite 0)"
      "eval P1 (Cx (Finite (1 / 4)) (Finite 0)) = Cx (Finite 0) (Finite 0)"
      "eval P2 (Cx (Finite (1 / 4)) (Finite 0)) = Cx (Finite 0) (Finite 0)"
    by (simp_all add: eval_def P0_def P1_def P2_def zero_cdouble_def one_cdouble_def
          zero_double_def one_double_def minus_double_def rnd64_dyadic)
  show "eval P0 (Cx (Finite (1 / 4)) (Finite 0)) = Cx (Finite (193 / 64)) (Finite 0)"
    by (rule ev(1))
  show "eval (der P0) (Cx (Finite (1 / 4)) (Finite 0)) = Cx (Finite 0) (Finite 0)"
    unfolding der_P0 by (rule ev(2))
  show "eval (der (der P0)) (Cx (Finite (1 / 4)) (Finite 0)) = Cx (Finite 0) (Finite 0)"
    unfolding der_P0 der_P1 by (rule ev(3))
  have nan: "eval P0 (Cx NaN NaN) = Cx NaN NaN"
      "eval P1 (Cx NaN NaN) = Cx NaN NaN"
      "eval P2 (Cx NaN NaN) = Cx NaN NaN"
    by (simp_all add: eval_def P0_def P1_def P2_def zero_cdouble_def one_cdouble_def
          zero_double_def one_double_def minus_double_def rnd64_dyadic)
  have di: "double_of_int 3 = Finite 3" "double_of_int 2 = Finite 2"
    by (simp_all add: double_of_int_def rnd64_dyadic)
  have sq: "csqrt_d (Cx (Finite 0) (Finite 0)) = Cx (Finite 0) (Finite 0)"
    by (simp add: rnd64_dyadic Complex_eq_0)
  have first: "laguerre_iter P0 P1 P2 3 0 (Cx (Finite (1 / 4)) (Finite 0))
      = laguerre_iter P0 P1 P2 3 1 (Cx NaN NaN)"
    by (subst laguerre_iter.simps)
       (simp add: ev Let_def lit_12 di cplx_def sq zero_double_def minus_double_def rnd64_dyadic
          cabs_real_axis cabs_nan del: csqrt_d.simps cabs.simps(1))
  have step: "laguerre_iter P0 P1 P2 3 k (Cx NaN NaN) = laguerre_iter P0 P1 P2 3 (k + 1) (Cx NaN NaN)"
    if "k < 1000" for k
    using that
    by (subst laguerre_iter.simps)
       (simp add: nan Let_def lit_12 di cplx_def zero_double_def minus_double_def)
  have run: "laguerre_iter P0 P1 P2 3 (1000 - j) (Cx NaN NaN) = (1000, Cx NaN NaN)" if "j \<le> 1000" for j
    using that
  proof (induction j)
    case 0
    show ?case by (subst laguerre_iter.simps) simp
  next
    case (Suc j)
    have a: "1000 - Suc j < 1000" "1000 - Suc j + 1 = 1000 - j"
      using Suc.prems by simp_all
    show ?case
      using step[OF a(1)] Suc a(2) by simp
  qed
  show "laguerre_iter P0 (der P0) (der (der P0)) 3 0 (Cx (Finite (1 / 4)) (Finite 0))
           = (1000, Cx NaN NaN)"
    using first run[of 999] by (simp add: der_P0 der_P1)
qed

text \<open>
  Claim C4, as amended.  No error is surfaced when the inner iteration runs into its cap:
  if, for the working polynomial \<open>p\<close> of some round of the outer loop, the inner loop
  ends with its counter at \<open>1000\<close> and the iterate \<open>x\<close>, then \<open>x\<close> is recorded as a
  root of multiplicity \<open>1\<close>, \<open>p\<close> is deflated by it and the loop goes on to return a
  root list.
\<close>

theorem laguerre_cap_accepted:
  assumes "poly_inv p" "int (deg p) = dg - d" "d < dg"
    and "laguerre_iter p (der p) (der (der p)) dg 0 (cplx (lower_bound p)) = (1000, x)"
  shows "\<exists>rest. laguerre_outer dg d p res = Inr (res @ (1, x) # rest)"
  by (rule laguerre_cap_step[OF assms])

theorem laguerre_cap_accepted_witness:
  "poly_inv \<lparr>coef = [Cx (Finite 1) (Finite 0), Cx (Finite (- 3 / 4)) (Finite 0),
                      Cx (Finite (3 / 16)) (Finite 0), Cx (Finite 3) (Finite 0)], deg = 3\<rparr>
   \<and> int (deg \<lparr>coef = [Cx (Finite 1) (Finite 0), Cx (Finite (- 3 / 4)) (Finite 0),
                         Cx (Finite (3 / 16)) (Finite 0), Cx (Finite 3) (Finite 0)], deg = 3\<rparr>) = 3 - 0
   \<and> (0 :: int) < 3
   \<and> laguerre_iter
         \<lparr>coef = [Cx (Finite 1) (Finite 0), Cx (Finite (- 3 / 4)) (Finite 0),
                  Cx (Finite (3 / 16)) (Finite 0), Cx (Finite 3) (Finite 0)], deg = 3\<rparr>
         (der \<lparr>coef = [Cx (Finite 1) (Finite 0), Cx (Finite (- 3 / 4)) (Finite 0),
                       Cx (Finite (3 / 16)) (Finite 0), Cx (Finite 3) (Finite 0)], deg = 3\<rparr>)
         (der (der \<lparr>coef = [Cx (Finite 1) (Finite 0), Cx (Finite (- 3 / 4)) (Finite 0),
                            Cx (Finite (3 / 16)) (Finite 0), Cx (Finite 3) (Finite 0)], deg = 3\<rparr>))
         3 0
         (cplx (lower_bound
            \<lparr>coef = [Cx (Finite 1) (Finite 0), Cx (Finite (- 3 / 4)) (Finite 0),
                     Cx (Finite (3 / 16)) (Finite 0), Cx (Finite 3) (Finite 0)], deg = 3\<rparr>))
       = (1000, Cx NaN NaN)
   \<and> (\<exists>rest. laguerre_outer 3 0
                 \<lparr>coef = [Cx (Finite 1) (Finite 0), Cx (Finite (- 3 / 4)) (Finite 0),
                          Cx (Finite (3 / 16)) (Finite 0), Cx (Finite 3) (Finite 0)], deg = 3\<rparr> []
               = Inr ([] @ (1, Cx NaN NaN) # rest))"
proof -
  define P0 :: "cdouble Poly" where
    "P0 = \<lparr>coef = [Cx (Finite 1) (Finite 0), Cx (Finite (- 3 / 4)) (Finite 0),
                   Cx (Finite (3 / 16)) (Finite 0), Cx (Finite 3) (Finite 0)], deg = 3\<rparr>"
  note c = laguerre_nan_run[folded P0_def]
  have it: "laguerre_iter P0 (der P0) (der (der P0)) 3 0 (cplx (lower_bound P0)) = (1000, Cx NaN NaN)"
    using c(6) by (simp add: c(2) cplx_def zero_double_def)
  have d: "int (deg P0) = 3 - 0" "(0 :: int) < 3" by (simp_all add: P0_def)
  have "\<exists>rest. laguerre_outer 3 0 P0 [] = Inr ([] @ (1, Cx NaN NaN) # rest)"
    by (rule laguerre_cap_accepted[OF c(1) d it])
  then show ?thesis using c(1) d it unfolding P0_def by blast
qed

text \<open>
  For \<open>x^3 - 0.75 x^2 + 0.1875 x + 3\<close> in \<open>double\<close> the starting point is \<open>0.25\<close>,
  where the polynomial is \<open>3.015625\<close> and its first and second derivatives are \<open>0\<close>.
  Both candidate denominators of the Laguerre step are \<open>0\<close>, the step \<open>3 / 0\<close> is not a
  number and neither is any later iterate, residual or step: no comparison with the
  tolerance succeeds, the loop ends at the cap, and \<open>solve_laguerre\<close> returns a root list
  that starts with NaN.
\<close>

theorem laguerre_cap_counterexample:
  "lower_bound \<lparr>coef = [Cx (Finite 1) (Finite 0), Cx (Finite (- 3 / 4)) (Finite 0),
                        Cx (Finite (3 / 16)) (Finite 0), Cx (Finite 3) (Finite 0)], deg = 3\<rparr>
     = Finite (1 / 4)
   \<and> eval \<lparr>coef = [Cx (Finite 1) (Finite 0), Cx (Finite (- 3 / 4)) (Finite 0),
                    Cx (Finite (3 / 16)) (Finite 0), Cx (Finite 3) (Finite 0)], deg = 3\<rparr>
          (Cx (Finite (1 / 4)) (Finite 0))
       = Cx (Finite (193 / 64)) (Finite 0)
   \<and> laguerre_iter
         \<lparr>coef = [Cx (Finite 1) (Finite 0), Cx (Finite (- 3 / 4)) (Finite 0),
                  Cx (Finite (3 / 16)) (Finite 0), Cx (Finite 3) (Finite 0)], deg = 3\<rparr>
         (der \<lparr>coef = [Cx (Finite 1) (Finite 0), Cx (Finite (- 3 / 4)) (Finite 0),
                       Cx (Finite (3 / 16)) (Finite 0), Cx (Finite 3) (Finite 0)], deg = 3\<rparr>)
         (der (der \<lparr>coef = [Cx (Finite 1) (Finite 0), Cx (Finite (- 3 / 4)) (Finite 0),
                            Cx (Finite (3 / 16)) (Finite 0), Cx (Finite 3) (Finite 0)], deg = 3\<rparr>))
         3 0 (Cx (Finite (1 / 4)) (Finite 0))
       = (1000, Cx NaN NaN)
   \<and> (\<exists>rest. solve_laguerre
                 (Poly_of_init_list [Finite 1, Finite (- 3 / 4), Finite (3 / 16), Finite 3])
               = Inr ((1, Cx NaN NaN) # rest))"
proof -
  define P0 :: "cdouble Poly" where
    "P0 = \<lparr>coef = [Cx (Finite 1) (Finite 0), Cx (Finite (- 3 / 4)) (Finite 0),
                   Cx (Finite (3 / 16)) (Finite 0), Cx (Finite 3) (Finite 0)], deg = 3\<rparr>"
  note c = laguerre_nan_run[folded P0_def]
  have it: "laguerre_iter P0 (der P0) (der (der P0)) 3 0 (cplx (lower_bound P0)) = (1000, Cx NaN NaN)"
    using c(6) by (simp add: c(2) cplx_def zero_double_def)
  have sc: "laguerre_scan [Finite 1, Finite (- 3 / 4), Finite (3 / 16), Finite 3] 3 0 = Inr 0"
    by (subst laguerre_scan.simps) (simp add: lit_16)
  have t: "int_of_size_t 3 = 3" by (simp add: int_of_size_t_def)
  have m: "(3 + 1) mod 2 ^ 64 = (4::nat)" by simp
  have r: "replicate 4 (0::cdouble) = [0, 0, 0, 0]" by (simp add: eval_nat_numeral)
  have dP: "Poly_of_init_list [Finite 1, Finite (- 3 / 4), Finite (3 / 16), Finite 3]
      = \<lparr>coef = [Finite 1, Finite (- 3 / 4), Finite (3 / 16), Finite 3], deg = 3\<rparr>"
    by (simp add: Poly_of_init_list_def size_minus_one_def)
  have n: "nat (3 - 0) = 3" "nat 3 = 3" by simp_all
  have u: "[0..<Suc 3] = [0, 1, 2, 3]" by (simp add: upt_conv_Cons)
  have S: "solve_laguerre (Poly_of_init_list [Finite 1, Finite (- 3 / 4), Finite (3 / 16), Finite 3])
      = laguerre_outer 3 0 P0 []"
    unfolding dP solve_laguerre_def
    by (simp only: Poly.simps t sc sum.case Let_def Poly_of_deg_value_def n m r u)
       (simp add: P0_def cplx_def zero_double_def zero_cdouble_def)
  have "\<exists>rest. laguerre_outer 3 0 P0 [] = Inr ([] @ (1, Cx NaN NaN) # rest)"
    by (rule laguerre_cap_step[OF c(1) _ _ it]) (simp_all add: P0_def)
  then show ?thesis using c(2,3,6) S unfolding P0_def by simp
qed

text \<open>
  Claim C6 says that the multiplicities returned by \<open>solve\<close> sum to the degree in every
  branch.  The Laguerre branch does not achieve that: its scan for trailing coefficients
  that are nearly zero has no lower bound, so for a polynomial of degree at least \<open>4\<close>
  all of whose coefficients are below \<open>1e-16\<close> in magnitude (the leading one may well be
  nonzero) it steps past the leading coefficient and reads \<open>poly[-1]\<close>: the run ends in
  an access outside the vector and returns no roots.
\<close>

theorem solve_scan_overrun:
  assumes "poly_inv P" "4 \<le> deg P" "deg P < 2 ^ 31" "type \<noteq> 1"
    and "\<forall>c\<in>set (coef P). \<bar>c\<bar> < lit (1 / 10 ^ 16)"
  shows "solve cm eigenvalues P type = Inl OutOfBounds"
proof -
  have "solve_laguerre P = Inl OutOfBounds"
    by (rule solve_laguerre_small[OF assms(1,3,5)])
  then show ?thesis using assms(2,4) by (simp add: solve_def solve_numerical_def)
qed

text \<open>
  \<open>[1e-17, 0, 0, 0, 0]\<close> has degree \<open>4\<close> and a nonzero leading coefficient.  With the
  Laguerre strategy \<open>solve\<close> fails on it; with the eigenvalue strategy (Eigen returning
  \<open>n\<close> eigenvalues of an \<open>n\<close> by \<open>n\<close> matrix) it returns roots whose multiplicities sum
  to \<open>4\<close>.
\<close>

theorem solve_scan_overrun_witness:
  "poly_inv (Poly_of_init_list [lit (1 / 10 ^ 17), 0, 0, 0, 0])
   \<and> deg (Poly_of_init_list [lit (1 / 10 ^ 17), 0, 0, 0, 0]) = 4
   \<and> (2 :: int) \<noteq> 1
   \<and> hd (coef (Poly_of_init_list [lit (1 / 10 ^ 17), 0, 0, 0, 0])) \<noteq> 0
   \<and> set (coef (Poly_of_init_list [lit (1 / 10 ^ 17), 0, 0, 0, 0])) = {lit (1 / 10 ^ 17), 0}
   \<and> \<bar>lit (1 / 10 ^ 17)\<bar> < lit (1 / 10 ^ 16) \<and> \<bar>0 :: double\<bar> < lit (1 / 10 ^ 16)
   \<and> solve \<lparr>m_sqrt = \<lambda>x. x, m_acos = \<lambda>x. x, m_cos = \<lambda>x. x, m_pow = \<lambda>x y. x\<rparr>
        (\<lambda>n m. replicate n 0) (Poly_of_init_list [lit (1 / 10 ^ 17), 0, 0, 0, 0]) 2
       = Inl OutOfBounds
   \<and> (\<exists>res. solve \<lparr>m_sqrt = \<lambda>x. x, m_acos = \<lambda>x. x, m_cos = \<lambda>x. x, m_pow = \<lambda>x y. x\<rparr>
               (\<lambda>n m. replicate n 0) (Poly_of_init_list [lit (1 / 10 ^ 17), 0, 0, 0, 0]) 1
             = Inr res \<and> sum_list (map fst res) = 4)"
proof -
  let ?P = "Poly_of_init_list [lit (1 / 10 ^ 17), 0, 0, 0, 0]"
  let ?cm = "\<lparr>m_sqrt = \<lambda>x. x, m_acos = \<lambda>x. x, m_cos = \<lambda>x. x, m_pow = \<lambda>x y. x\<rparr>"
  have h: "poly_inv ?P" "4 \<le> deg ?P" "deg ?P < 2 ^ 31" "(2 :: int) \<noteq> 1" "1 \<le> deg ?P"
    by (simp_all add: poly_inv_def Poly_of_init_list_def size_minus_one_def)
  have d: "deg ?P = 4" by (simp add: Poly_of_init_list_def size_minus_one_def)
  have s: "\<bar>lit (1 / 10 ^ 17)\<bar> < lit (1 / 10 ^ 16)" "\<bar>0 :: double\<bar> < lit (1 / 10 ^ 16)"
    by (simp_all add: lit_16 lit_17 zero_double_def)
  have n: "hd (coef ?P) \<noteq> 0" by (simp add: Poly_of_init_list_def lit_17 zero_double_def)
  have e: "set (coef ?P) = {lit (1 / 10 ^ 17), 0}" by (simp add: Poly_of_init_list_def)
  have a: "\<forall>c\<in>set (coef ?P). \<bar>c\<bar> < lit (1 / 10 ^ 16)" unfolding e using s by simp
  have 1: "solve ?cm (\<lambda>n m. replicate n 0) ?P 2 = Inl OutOfBounds"
    by (rule solve_scan_overrun[OF h(1-4) a])
  have 2: "\<exists>res. solve ?cm (\<lambda>n m. replicate n 0) ?P 1 = Inr res \<and> sum_list (map fst res) = int (deg ?P)"
    by (rule solve_sum[OF h(1,5,3)]) simp_all
  show ?thesis using h(1,4) d n e s 1 2 by (simp only: d) simp
qed

section \<open>Properties of the point sampling\<close>

lemma fold_err_snoc:
  "fold_err f s (xs @ [x]) = (case fold_err f s xs of Inl e \<Rightarrow> Inl e | Inr s' \<Rightarrow> f s' x)"
  by (induction xs arbitrary: s) (simp_all split: sum.splits)

lemma fold_err_only:
  assumes "\<And>s x e. f s x = Inl e \<Longrightarrow> e = OutOfBounds"
  shows "fold_err f s xs = Inl e \<Longrightarrow> e = OutOfBounds"
proof (induction xs arbitrary: s)
  case Nil
  then show ?case by simp
next
  case (Cons x xs)
  show ?case
  proof (cases "f s x")
    case (Inl e')
    then show ?thesis using Cons.prems assms[OF Inl] by simp
  next
    case (Inr s')
    then show ?thesis using Cons.prems Cons.IH[of s'] by simp
  qed
qed

lemma fold_err_inv:
  assumes "\<And>s x s'. I s \<Longrightarrow> f s x = Inr s' \<Longrightarrow> I s'"
  shows "I s \<Longrightarrow> fold_err f s xs = Inr s' \<Longrightarrow> I s'"
proof (induction xs arbitrary: s)
  case Nil
  then show ?case by simp
next
  case (Cons x xs)
  show ?case
  proof (cases "f s x")
    case (Inl e')
    then show ?thesis using Cons.prems by simp
  next
    case (Inr s1)
    then show ?thesis using Cons.prems Cons.IH[of s1] assms[OF Cons.prems(1) Inr] by simp
  qed
qed

lemma elem_at_only: "elem_at xs i = Inl e \<Longrightarrow> e = OutOfBounds"
  by (simp add: elem_at_def split: if_splits)

lemma elem_at_Inr: "elem_at xs i = Inr v \<Longrightarrow> 0 \<le> i \<and> i < int (length xs) \<and> v \<in> set xs"
  by (auto simp add: elem_at_def split: if_splits)

lemma set_point_only: "set_point c j t i points = Inl e \<Longrightarrow> e = OutOfBounds"
  unfolding set_point_def
  by (erule fold_err_only[rotated]) (auto split: sum.splits if_splits dest: elem_at_only)

lemma while_cases:
  obtains (fault) "get_points_while c ts N j (points, t, i) = Inl OutOfBounds"
  | (stop) k1 bound where "elem_at (ks c) (j + 1) = Inr k1" "elem_at (knots c) k1 = Inr bound"
      "\<not> (t \<le> bound \<and> i < N)" "get_points_while c ts N j (points, t, i) = Inr (points, t, i)"
  | (step) k1 bound points' t' where "elem_at (ks c) (j + 1) = Inr k1"
      "elem_at (knots c) k1 = Inr bound" "t \<le> bound" "i < N"
      "set_point c j t i points = Inr points'" "elem_at ts (i + 1) = Inr t'"
      "get_points_while c ts N j (points, t, i) = get_points_while c ts N j (points', t', i + 1)"
proof (cases "elem_at (ks c) (j + 1)")
  case (Inl e)
  then have "get_points_while c ts N j (points, t, i) = Inl OutOfBounds"
    using elem_at_only[OF Inl] by (subst get_points_while.simps) simp
  then show ?thesis by (rule fault)
next
  case k: (Inr k1)
  show ?thesis
  proof (cases "elem_at (knots c) k1")
    case (Inl e)
    then have "get_points_while c ts N j (points, t, i) = Inl OutOfBounds"
      using elem_at_only[OF Inl] k by (subst get_points_while.simps) simp
    then show ?thesis by (rule fault)
  next
    case b: (Inr bound)
    show ?thesis
    proof (cases "t \<le> bound \<and> i < N")
      case False
      then have "get_points_while c ts N j (points, t, i) = Inr (points, t, i)"
        using k b by (subst get_points_while.simps) auto
      then show ?thesis using k b False by (intro stop[of k1 bound])
    next
      case True
      show ?thesis
      proof (cases "set_point c j t i points")
        case (Inl e)
        then have "get_points_while c ts N j (points, t, i) = Inl OutOfBounds"
          using set_point_only[OF Inl] k b True by (subst get_points_while.simps) simp
        then show ?thesis by (rule fault)
      next
        case sp: (Inr points')
        show ?thesis
        proof (cases "elem_at ts (i + 1)")
          case (Inl e)
          then have "get_points_while c ts N j (points, t, i) = Inl OutOfBounds"
            using elem_at_only[OF Inl] k b True sp by (subst get_points_while.simps) simp
          then show ?thesis by (rule fault)
        next
          case (Inr t')
          then have "get_points_while c ts N j (points, t, i) = get_points_while c ts N j (points', t', i + 1)"
            using k b True sp by (subst get_points_while.simps) simp
          then show ?thesis using k b True sp Inr by (intro step[of k1 bound points' t']) simp_all
        qed
      qed
    qed
  qed
qed

lemma while_inv:
  assumes "int (length ts) = N" "\<forall>u\<in>set ts. u \<le> B"
  shows "0 \<le> i \<Longrightarrow> i < N \<Longrightarrow> t \<le> B
     \<Longrightarrow> get_points_while c ts N j (points, t, i) = Inr (points', t', i')
     \<Longrightarrow> 0 \<le> i' \<and> i' < N \<and> t' \<le> B"
proof (induction "nat (N - i)" arbitrary: points t i)
  case 0
  then show ?case by simp
next
  case (Suc n)
  show ?case
  proof (cases rule: while_cases[of c ts N j points t i])
    case fault
    then show ?thesis using Suc.prems(4) by simp
  next
    case (stop k1 bound)
    then show ?thesis using Suc.prems by simp
  next
    case (step k1 bound points1 t1)
    have r: "0 \<le> i + 1" "i + 1 < N" "t1 \<le> B"
      using elem_at_Inr[OF step(6)] assms Suc.prems(1) by auto
    have n: "n = nat (N - (i + 1))" using Suc.hyps(2) by simp
    show ?thesis
      using Suc.hyps(1)[OF n r] step(7) Suc.prems(4) by simp
  qed
qed

lemma while_only:
  "get_points_while c ts N j (points, t, i) = Inl e \<Longrightarrow> e = OutOfBounds"
proof (induction "nat (N - i)" arbitrary: points t i)
  case 0
  show ?case
  proof (cases rule: while_cases[of c ts N j points t i])
    case fault
    then show ?thesis using 0(2) by simp
  next
    case (stop k1 bound)
    then show ?thesis using 0(2) by simp
  next
    case (step k1 bound points1 t1)
    then show ?thesis using 0(1) by simp
  qed
next
  case (Suc n)
  show ?case
  proof (cases rule: while_cases[of c ts N j points t i])
    case fault
    then show ?thesis using Suc.prems by simp
  next
    case (stop k1 bound)
    then show ?thesis using Suc.prems by simp
  next
    case (step k1 bound points1 t1)
    have n: "n = nat (N - (i + 1))" using Suc.hyps(2) by simp
    show ?thesis
      using Suc.hyps(1)[OF n, of points1 t1] step(7) Suc.prems by simp
  qed
qed

lemma while_faults:
  assumes "int (length ts) = N" "\<forall>u\<in>set ts. u \<le> bound"
    "elem_at (ks c) (j + 1) = Inr k1" "elem_at (knots c) k1 = Inr bound"
  shows "0 \<le> i \<Longrightarrow> i < N \<Longrightarrow> t \<le> bound
     \<Longrightarrow> get_points_while c ts N j (points, t, i) = Inl OutOfBounds"
proof (induction "nat (N - i)" arbitrary: points t i)
  case 0
  then show ?case by simp
next
  case (Suc n)
  show ?case
  proof (cases rule: while_cases[of c ts N j points t i])
    case fault
    then show ?thesis .
  next
    case (stop k1' bound')
    then show ?thesis using assms(3,4) Suc.prems by simp
  next
    case (step k1' bound' points1 t1)
    have r: "0 \<le> i + 1" "i + 1 < N" "t1 \<le> bound"
      using elem_at_Inr[OF step(6)] assms(1,2) Suc.prems(1) by auto
    have n: "n = nat (N - (i + 1))" using Suc.hyps(2) by simp
    show ?thesis
      using Suc.hyps(1)[OF n r] step(7) by simp
  qed
qed

lemma get_points_faults:
  assumes "1 \<le> N" "1 \<le> N_segments c"
    and "elem_at (knots c) (fst (domain c)) = Inr a"
    and "elem_at (knots c) (snd (domain c)) = Inr b"
    and "elem_at (ks c) (N_segments c) = Inr k1"
    and "elem_at (knots c) k1 = Inr bound"
    and "a \<le> bound" "\<forall>u\<in>set (linspace a b N). u \<le> bound"
  shows "get_points c N = Inl OutOfBounds"
proof -
  define ts where "ts = linspace a b N"
  define pts0 :: "Point list" where "pts0 = replicate (nat N) (replicate (nat (nurbs_dim c)) 0)"
  define f where "f = (\<lambda>st j. get_points_while c ts N j st)"
  define n where "n = nat (N_segments c) - 1"
  have lts: "int (length ts) = N" using assms(1) by (simp add: ts_def linspace_def)
  have le: "\<forall>u\<in>set ts. u \<le> bound" using assms(8) by (simp add: ts_def)
  have segs: "map int [0..<nat (N_segments c)] = map int [0..<n] @ [int n]"
  proof -
    have "nat (N_segments c) = Suc n" using assms(2) by (simp add: n_def)
    then show ?thesis by simp
  qed
  have last: "int n + 1 = N_segments c" using assms(2) by (simp add: n_def)
  have G: "get_points c N =
      (case fold_err f (pts0, a, 0) (map int [0..<nat (N_segments c)]) of
         Inl e \<Rightarrow> Inl e | Inr st \<Rightarrow> Inr (fst st))"
    by (simp add: get_points_def assms(3,4) Let_def ts_def pts0_def f_def)
  have inv: "\<And>s x s'. (case s of (points, t, i) \<Rightarrow> 0 \<le> i \<and> i < N \<and> t \<le> bound)
      \<Longrightarrow> f s x = Inr s' \<Longrightarrow> (case s' of (points, t, i) \<Rightarrow> 0 \<le> i \<and> i < N \<and> t \<le> bound)"
  proof -
    fix s x s' 
    assume a: "case s of (points, t, i) \<Rightarrow> 0 \<le> (i::int) \<and> i < N \<and> (t::real) \<le> bound" and b: "f s x = Inr s'"
    obtain points t i where s: "s = (points, t, i)" by (cases s)
    obtain points' t' i' where s': "s' = (points', t', i')" by (cases s')
    show "case s' of (points, t, i) \<Rightarrow> 0 \<le> i \<and> i < N \<and> t \<le> bound"
      using while_inv[OF lts le, of i t c x points points' t' i'] a b by (simp add: s s' f_def)
  qed
  have only: "\<And>s x e. f s x = Inl e \<Longrightarrow> e = OutOfBounds"
  proof -
    fix s :: "Point list \<times> real \<times> int" and x e
    assume a: "f s x = Inl e"
    obtain points t i where s: "s = (points, t, i)" by (cases s)
    show "e = OutOfBounds"
      using a unfolding f_def s by (rule while_only)
  qed
  have "fold_err f (pts0, a, 0) (map int [0..<nat (N_segments c)]) = Inl OutOfBounds"
  proof (cases "fold_err f (pts0, a, 0) (map int [0..<n])")
    case (Inl e)
    then show ?thesis using fold_err_only[of f, OF only Inl] by (simp add: segs fold_err_snoc)
  next
    case (Inr s1)
    obtain points t i where s1: "s1 = (points, t, i)" by (cases s1)
    have "case s1 of (points, t, i) \<Rightarrow> 0 \<le> i \<and> i < N \<and> t \<le> bound"
      by (rule fold_err_inv[of "\<lambda>s. case s of (points, t, i) \<Rightarrow> 0 \<le> i \<and> i < N \<and> t \<le> bound" f, OF inv _ Inr])
         (use assms(1,7) in auto)
    then have I: "0 \<le> i" "i < N" "t \<le> bound" by (simp_all add: s1)
    have "f s1 (int n) = Inl OutOfBounds"
      unfolding f_def s1
      by (rule while_faults[OF lts le _ assms(6) I]) (simp add: last assms(5))
    then show ?thesis using Inr by (simp add: segs fold_err_snoc)
  qed
  then show ?thesis by (simp add: G)
qed

text \<open>
  With one spare element in the parameter array the loop of the straight-line curve
  below returns both samples: the read of \<open>ts[i]\<close> after the last sample is its only
  access outside a container.
\<close>

lemma line_while_spare:
  "get_points_while \<lparr>nurbs_p = 1, nurbs_dim = 2, N_segments = 1, knots = [0, 0, 1, 1],
       weights = [1, 1], cv = [[0, 0], [1, 1]], domain = (1, 2), ks = [1, 2],
       coefs = [([\<lparr>coef = [1, 0], deg = 1\<rparr>, \<lparr>coef = [1, 0], deg = 1\<rparr>], \<lparr>coef = [1], deg = 0\<rparr>)]\<rparr>
     [0, 1, 5] 2 0 ([[0, 0], [0, 0]], 0, 0)
     = Inr ([[0, 0], [1, 1]], 5, 2)"
  by (simp add: elem_at_def get_points_while.simps set_point_def At_def upt_conv_Cons
        eval_nat_numeral Let_def)

text \<open>
  Claim C10 says that \<open>get_points(N)\<close> stays inside the length-\<open>N\<close> parameter array and
  returns \<open>N\<close> points.  The code does the opposite: for every \<open>N \<ge> 1\<close> and every curve
  with at least one segment whose domain knots and last segment boundary can be read, if
  the first parameter and the \<open>N\<close> sampled parameters do not exceed the last segment
  boundary (as evenly spaced parameters over the domain do), the loop produces the last
  sample, increments \<open>i\<close> to \<open>N\<close> and reads \<open>ts[N]\<close>: the run ends in an access
  outside a container and returns no points.
\<close>

theorem get_points_reads_past_end:
  assumes "1 \<le> N" "1 \<le> N_segments c"
    and "elem_at (knots c) (fst (domain c)) = Inr a"
    and "elem_at (knots c) (snd (domain c)) = Inr b"
    and "elem_at (ks c) (N_segments c) = Inr k1"
    and "elem_at (knots c) k1 = Inr bound"
    and "a \<le> bound" "\<forall>u\<in>set (linspace a b N). u \<le> bound"
  shows "get_points c N = Inl OutOfBounds"
  by (rule get_points_faults[OF assms])

text \<open>
  The curve of degree \<open>1\<close> through \<open>(0, 0)\<close> and \<open>(1, 1)\<close> with knots \<open>[0, 0, 1, 1]\<close>
  and equal weights, sampled at \<open>N = 2\<close> parameters; \<open>get_dy_dx_points\<close> fails in the same
  way.
\<close>

theorem get_points_reads_past_end_witness:
  "(1 :: int) \<le> 2
   \<and> elem_at [0, 0, 1, 1 :: real] 1 = Inr 0 \<and> elem_at [0, 0, 1, 1 :: real] 2 = Inr 1
   \<and> elem_at [1, 2 :: int] 1 = Inr 2
   \<and> linspace 0 1 2 = [0, 1]
   \<and> get_points \<lparr>nurbs_p = 1, nurbs_dim = 2, N_segments = 1, knots = [0, 0, 1, 1],
         weights = [1, 1], cv = [[0, 0], [1, 1]], domain = (1, 2), ks = [1, 2],
         coefs = [([\<lparr>coef = [1, 0], deg = 1\<rparr>, \<lparr>coef = [1, 0], deg = 1\<rparr>],
                   \<lparr>coef = [1], deg = 0\<rparr>)]\<rparr> 2
       = Inl OutOfBounds
   \<and> get_dy_dx_points \<lparr>nurbs_p = 1, nurbs_dim = 2, N_segments = 1, knots = [0, 0, 1, 1],
         weights = [1, 1], cv = [[0, 0], [1, 1]], domain = (1, 2), ks = [1, 2],
         coefs = [([\<lparr>coef = [1, 0], deg = 1\<rparr>, \<lparr>coef = [1, 0], deg = 1\<rparr>],
                   \<lparr>coef = [1], deg = 0\<rparr>)]\<rparr> 2
       = Inl OutOfBounds"
proof -
  define c where "c = \<lparr>nurbs_p = 1, nurbs_dim = 2, N_segments = 1, knots = [0, 0, 1, 1],
         weights = [1, 1], cv = [[0, 0], [1, 1]], domain = (1, 2), ks = [1, 2],
         coefs = [([\<lparr>coef = [1, 0], deg = 1\<rparr>, \<lparr>coef = [1, 0], deg = 1\<rparr>],
                   \<lparr>coef = [1], deg = 0\<rparr>)]\<rparr>"
  have e: "elem_at [0, 0, 1, 1 :: real] 1 = Inr 0" "elem_at [0, 0, 1, 1 :: real] 2 = Inr 1"
      "elem_at [1, 2 :: int] 1 = Inr 2"
    by (simp_all add: elem_at_def)
  have l: "linspace 0 1 2 = [0, 1]"
    by (simp add: linspace_def upt_conv_Cons eval_nat_numeral)
  have h: "(1 :: int) \<le> 2" "1 \<le> N_segments c"
      "elem_at (knots c) (fst (domain c)) = Inr 0" "elem_at (knots c) (snd (domain c)) = Inr 1"
      "elem_at (ks c) (N_segments c) = Inr 2" "elem_at (knots c) 2 = Inr 1"
      "(0 :: real) \<le> 1" "\<forall>u\<in>set (linspace 0 1 2). u \<le> 1"
    by (simp_all add: c_def e l)
  have g: "get_points c 2 = Inl OutOfBounds"
    by (rule get_points_reads_past_end[OF h])
  have s: "get_dy_dx_points c 2 = Inl OutOfBounds"
    by (simp add: c_def get_dy_dx_points_def elem_at_def linspace_def get_dy_dx_while.simps At_def
          upt_conv_Cons eval_nat_numeral Let_def)
  show ?thesis using e l g s unfolding c_def by simp
qed

end
